theory Spec2Isabelle
  imports Main
begin

section \<open>JavaScript regular expressions\<close>

text \<open>
  The analysed program (\<^verbatim>\<open>helpers/we-api-finder.js\<close>) builds the source text of regular
  expressions by string concatenation and hands it to the JavaScript engine
  (\<^verbatim>\<open>new RegExp(regexString)\<close>). The engine is modelled in two parts: a parser from
  pattern text to syntax trees, which fails where the engine throws a \<^verbatim>\<open>SyntaxError\<close>,
  and a backtracking matcher on syntax trees. Texts are lists of 8-bit characters: code
  units above 255 are outside the model.
\<close>

datatype citem = CChar char | CEsc char | CRange char char

datatype regex =
    REps
  | RChr char
  | REsc char
  | RDot
  | RDotAll
  | RCls "citem list"
  | RNCls "citem list"
  | RSeq regex regex
  | RAlt regex regex
  | RStar regex
  | RLazy regex
  | ROpt regex
  | ROptLazy regex
  | RPlus regex
  | RPlusLazy regex
  | RGroup regex
  | RCapture regex
  | RAhead regex
  | RNotAhead regex
  | RBehind regex
  | RNotBehind regex
  | RBol
  | REol

definition bslash :: char where
  "bslash = CHR 0x5C"

definition LF :: char where
  "LF = CHR 0x0A"

definition CR :: char where
  "CR = CHR 0x0D"

subsection \<open>Matching\<close>

text \<open>
  Character escapes: \<^verbatim>\<open>\s\<close> is white space or a line terminator (the code units below
  256 among them), \<^verbatim>\<open>\d\<close> a digit, \<^verbatim>\<open>\w\<close> a letter, a digit or the underscore, the
  capital letters their complements; \<^verbatim>\<open>\n\<close>, \<^verbatim>\<open>\r\<close>, \<^verbatim>\<open>\t\<close>, \<^verbatim>\<open>\f\<close>, \<^verbatim>\<open>\v\<close> are control
  characters; the escape of a punctuation character is the character itself. The parser
  below lets no other escape through.
\<close>

definition is_space :: "char \<Rightarrow> bool" where
  "is_space c \<longleftrightarrow>
     c \<in> set [CHR 0x09, CHR 0x0A, CHR 0x0B, CHR 0x0C, CHR 0x0D, CHR 0x20, CHR 0xA0]"

definition in_range :: "char \<Rightarrow> char \<Rightarrow> char \<Rightarrow> bool" where
  "in_range a b c \<longleftrightarrow> (of_char a :: nat) \<le> of_char c \<and> (of_char c :: nat) \<le> of_char b"

definition is_digit :: "char \<Rightarrow> bool" where
  "is_digit c \<longleftrightarrow> in_range CHR ''0'' CHR ''9'' c"

definition is_letter :: "char \<Rightarrow> bool" where
  "is_letter c \<longleftrightarrow> in_range CHR ''A'' CHR ''Z'' c \<or> in_range CHR ''a'' CHR ''z'' c"

definition is_word :: "char \<Rightarrow> bool" where
  "is_word c \<longleftrightarrow> is_letter c \<or> is_digit c \<or> c = CHR ''_''"

definition esc_match :: "char \<Rightarrow> char \<Rightarrow> bool" where
  "esc_match e c =
     (if e = CHR ''s'' then is_space c
      else if e = CHR ''S'' then \<not> is_space c
      else if e = CHR ''d'' then is_digit c
      else if e = CHR ''D'' then \<not> is_digit c
      else if e = CHR ''w'' then is_word c
      else if e = CHR ''W'' then \<not> is_word c
      else if e = CHR ''n'' then c = LF
      else if e = CHR ''r'' then c = CR
      else if e = CHR ''t'' then c = CHR 0x09
      else if e = CHR ''f'' then c = CHR 0x0C
      else if e = CHR ''v'' then c = CHR 0x0B
      else c = e)"

fun citem_match :: "citem \<Rightarrow> char \<Rightarrow> bool" where
  "citem_match (CChar a) c = (c = a)"
| "citem_match (CEsc e) c = esc_match e c"
| "citem_match (CRange a b) c = in_range a b c"

text \<open>
  Greedy and lazy repetition. An iteration that consumes nothing is not taken (as in the
  language definition), so \<open>length s - i\<close> iterations are all there can be from
  position \<open>i\<close>.
\<close>

fun star_ends :: "(nat \<Rightarrow> nat list) \<Rightarrow> nat \<Rightarrow> nat \<Rightarrow> nat list" where
  "star_ends f 0 i = [i]"
| "star_ends f (Suc n) i =
     concat (map (star_ends f n) (filter (\<lambda>j. i < j) (f i))) @ [i]"

fun lazy_ends :: "(nat \<Rightarrow> nat list) \<Rightarrow> nat \<Rightarrow> nat \<Rightarrow> nat list" where
  "lazy_ends f 0 i = [i]"
| "lazy_ends f (Suc n) i =
     i # concat (map (lazy_ends f n) (filter (\<lambda>j. i < j) (f i)))"

text \<open>
  \<open>ends r s i\<close>: the positions at which a match of \<open>r\<close> starting at position \<open>i\<close> of
  \<open>s\<close> can end, in the order in which the backtracking engine tries them. A capturing
  group matches as a group does (the parser lets no back reference through).
\<close>

primrec ends :: "regex \<Rightarrow> string \<Rightarrow> nat \<Rightarrow> nat list" where
  "ends REps s i = [i]"
| "ends (RChr c) s i = (if i < length s \<and> s ! i = c then [Suc i] else [])"
| "ends (REsc e) s i = (if i < length s \<and> esc_match e (s ! i) then [Suc i] else [])"
| "ends RDot s i =
     (if i < length s \<and> s ! i \<noteq> LF \<and> s ! i \<noteq> CR then [Suc i] else [])"
| "ends RDotAll s i = (if i < length s then [Suc i] else [])"
| "ends (RCls items) s i =
     (if i < length s \<and> list_ex (\<lambda>it. citem_match it (s ! i)) items then [Suc i] else [])"
| "ends (RNCls items) s i =
     (if i < length s \<and> \<not> list_ex (\<lambda>it. citem_match it (s ! i)) items then [Suc i] else [])"
| "ends (RSeq a b) s i = concat (map (ends b s) (ends a s i))"
| "ends (RAlt a b) s i = ends a s i @ ends b s i"
| "ends (RStar r) s i = star_ends (ends r s) (length s - i) i"
| "ends (RLazy r) s i = lazy_ends (ends r s) (length s - i) i"
| "ends (ROpt r) s i = filter (\<lambda>j. j \<noteq> i) (ends r s i) @ [i]"
| "ends (ROptLazy r) s i = i # filter (\<lambda>j. j \<noteq> i) (ends r s i)"
| "ends (RPlus r) s i =
     concat (map (\<lambda>j. star_ends (ends r s) (length s - j) j) (ends r s i))"
| "ends (RPlusLazy r) s i =
     concat (map (\<lambda>j. lazy_ends (ends r s) (length s - j) j) (ends r s i))"
| "ends (RGroup r) s i = ends r s i"
| "ends (RCapture r) s i = ends r s i"
| "ends (RAhead r) s i = (if ends r s i = [] then [] else [i])"
| "ends (RNotAhead r) s i = (if ends r s i = [] then [i] else [])"
| "ends (RBehind r) s i =
     (if list_ex (\<lambda>k. i \<in> set (ends r s k)) [0..<Suc i] then [i] else [])"
| "ends (RNotBehind r) s i =
     (if list_ex (\<lambda>k. i \<in> set (ends r s k)) [0..<Suc i] then [] else [i])"
| "ends RBol s i = (if i = 0 then [i] else [])"
| "ends REol s i = (if i = length s then [i] else [])"

text \<open>\<^verbatim>\<open>regex.test(sourceText)\<close> for a pattern without flags: is there a match anywhere.\<close>

definition regex_test :: "regex \<Rightarrow> string \<Rightarrow> bool" where
  "regex_test r s = list_ex (\<lambda>i. ends r s i \<noteq> []) [0..<Suc (length s)]"

text \<open>
  \<^verbatim>\<open>text.replace(regex, "")\<close> for a pattern with the \<^verbatim>\<open>g\<close> flag: scanning from the left,
  the first match found at a position is cut out and the scan goes on behind it; after an
  empty match the scan moves one character on. The scan position grows in every step, so
  \<open>Suc (length s)\<close> steps reach the end.
\<close>

fun replace_loop :: "regex \<Rightarrow> string \<Rightarrow> nat \<Rightarrow> nat \<Rightarrow> string" where
  "replace_loop r s 0 i = drop i s"
| "replace_loop r s (Suc n) i =
     (if length s < i then []
      else (case ends r s i of
              [] \<Rightarrow> take 1 (drop i s) @ replace_loop r s n (Suc i)
            | e # _ \<Rightarrow>
                if i < e then replace_loop r s n e
                else take 1 (drop i s) @ replace_loop r s n (Suc i)))"

definition replace_all :: "regex \<Rightarrow> string \<Rightarrow> string" where
  "replace_all r s = replace_loop r s (Suc (length s)) 0"

subsection \<open>Parsing pattern text\<close>

text \<open>
  The parser reads the pattern text from left to right, one character at a time, with
  a stack of the groups that are open. A frame of the stack holds the kind of the group,
  the alternatives of the group that are finished and the terms of the alternative being
  read, the latest first. The result is
  \<^item> the syntax tree, when the text is a pattern in the syntax covered here;
  \<^item> \<open>SyntaxError\<close>, when the engine rejects the text (a group or class left open, an
    unmatched \<^verbatim>\<open>)\<close>, nothing to repeat, a class range out of order, a lone \<^verbatim>\<open>\\<close>);
  \<^item> \<open>Unsupported\<close>, when the text uses syntax that is not covered: braces outside a
    class, named groups and other groups that begin with \<^verbatim>\<open>(?\<close>, back references, \<^verbatim>\<open>\b\<close> and other letter or digit escapes, a
    quantifier behind a lookaround, class escapes as range ends. The model does not say
    what the engine does with such text.
\<close>

datatype engine_error = SyntaxError | Unsupported

datatype gkind =
  Top | NonCapturing | Capturing | Lookahead | NegLookahead | Lookbehind | NegLookbehind

datatype frame = Frame gkind "regex list" "regex list"

text \<open>
  What a quantifier would apply to: nothing, the latest term, a term that has a greedy
  quantifier already (a \<^verbatim>\<open>?\<close> makes it lazy), or a lookaround.
\<close>

datatype qstate = NoAtom | Atom | Quantified | Assertion

text \<open>Inside a class: no atom pending, an atom that may start a range, an atom and a dash.\<close>

datatype cstate = CS0 | CS1 citem | CS2 citem

datatype pmode =
    Normal qstate
  | Escape
  | Open0
  | Open1
  | Open2
  | ClassStart
  | Class bool "citem list" cstate
  | ClassEscape bool "citem list" cstate

type_synonym pstate = "pmode \<times> frame list"

fun seq_of :: "regex list \<Rightarrow> regex" where
  "seq_of [] = REps"
| "seq_of [t] = t"
| "seq_of (t # u # ts) = RSeq t (seq_of (u # ts))"

fun alt_of :: "regex list \<Rightarrow> regex" where
  "alt_of [] = REps"
| "alt_of [a] = a"
| "alt_of (a # b # as) = RAlt a (alt_of (b # as))"

fun frame_tree :: "frame \<Rightarrow> regex" where
  "frame_tree (Frame k alts terms) = alt_of (rev (seq_of (rev terms) # alts))"

fun frame_kind :: "frame \<Rightarrow> gkind" where
  "frame_kind (Frame k alts terms) = k"

fun wrap :: "gkind \<Rightarrow> regex \<Rightarrow> regex" where
  "wrap Top r = r"
| "wrap NonCapturing r = RGroup r"
| "wrap Capturing r = RCapture r"
| "wrap Lookahead r = RAhead r"
| "wrap NegLookahead r = RNotAhead r"
| "wrap Lookbehind r = RBehind r"
| "wrap NegLookbehind r = RNotBehind r"

fun after_group :: "gkind \<Rightarrow> qstate" where
  "after_group NonCapturing = Atom"
| "after_group Capturing = Atom"
| "after_group k = Assertion"

definition is_alnum :: "char \<Rightarrow> bool" where
  "is_alnum c \<longleftrightarrow> is_letter c \<or> is_digit c"

definition supported_escape :: "char \<Rightarrow> bool" where
  "supported_escape e \<longleftrightarrow> e \<in> set ''sSdDwWnrtfv'' \<or> \<not> is_alnum e"

definition push_term :: "regex \<Rightarrow> qstate \<Rightarrow> frame list \<Rightarrow> engine_error + pstate" where
  "push_term t q stack =
     (case stack of
        Frame k alts terms # rest \<Rightarrow> Inr (Normal q, Frame k alts (t # terms) # rest)
      | [] \<Rightarrow> Inl Unsupported)"

fun quantify :: "char \<Rightarrow> regex \<Rightarrow> regex" where
  "quantify c r = (if c = CHR ''*'' then RStar r else if c = CHR ''+'' then RPlus r else ROpt r)"

fun lazy_of :: "regex \<Rightarrow> regex option" where
  "lazy_of (RStar r) = Some (RLazy r)"
| "lazy_of (RPlus r) = Some (RPlusLazy r)"
| "lazy_of (ROpt r) = Some (ROptLazy r)"
| "lazy_of r = None"

definition quantifier :: "char \<Rightarrow> qstate \<Rightarrow> frame list \<Rightarrow> engine_error + pstate" where
  "quantifier c q stack =
     (case q of
        NoAtom \<Rightarrow> Inl SyntaxError
      | Assertion \<Rightarrow> Inl Unsupported
      | Atom \<Rightarrow>
          (case stack of
             Frame k alts (t # terms) # rest \<Rightarrow>
               Inr (Normal Quantified, Frame k alts (quantify c t # terms) # rest)
           | _ \<Rightarrow> Inl Unsupported)
      | Quantified \<Rightarrow>
          if c = CHR ''?''
          then (case stack of
                  Frame k alts (t # terms) # rest \<Rightarrow>
                    (case lazy_of t of
                       Some t' \<Rightarrow> Inr (Normal NoAtom, Frame k alts (t' # terms) # rest)
                     | None \<Rightarrow> Inl Unsupported)
                | _ \<Rightarrow> Inl Unsupported)
          else Inl SyntaxError)"

definition close_group :: "frame list \<Rightarrow> engine_error + pstate" where
  "close_group stack =
     (case stack of
        f # Frame k alts terms # rest \<Rightarrow>
          Inr (Normal (after_group (frame_kind f)),
               Frame k alts (wrap (frame_kind f) (frame_tree f) # terms) # rest)
      | _ \<Rightarrow> Inl SyntaxError)"

definition next_alternative :: "frame list \<Rightarrow> engine_error + pstate" where
  "next_alternative stack =
     (case stack of
        Frame k alts terms # rest \<Rightarrow> Inr (Normal NoAtom, Frame k (seq_of (rev terms) # alts) [] # rest)
      | [] \<Rightarrow> Inl Unsupported)"

definition step_normal :: "bool \<Rightarrow> qstate \<Rightarrow> frame list \<Rightarrow> char \<Rightarrow> engine_error + pstate" where
  "step_normal dotall q stack c =
     (if c = bslash then Inr (Escape, stack)
      else if c = CHR ''('' then Inr (Open0, stack)
      else if c = CHR '')'' then close_group stack
      else if c = CHR ''['' then Inr (ClassStart, stack)
      else if c = CHR ''|'' then next_alternative stack
      else if c = CHR ''*'' \<or> c = CHR ''+'' \<or> c = CHR ''?'' then quantifier c q stack
      else if c = CHR ''{'' then Inl Unsupported
      else if c = CHR ''^'' then push_term RBol NoAtom stack
      else if c = CHR ''$'' then push_term REol NoAtom stack
      else if c = CHR ''.'' then push_term (if dotall then RDotAll else RDot) Atom stack
      else push_term (RChr c) Atom stack)"

fun range_end :: "citem \<Rightarrow> char option" where
  "range_end (CChar c) = Some c"
| "range_end (CEsc e) = (if is_alnum e then None else Some e)"
| "range_end (CRange a b) = None"

definition class_atom ::
  "bool \<Rightarrow> citem list \<Rightarrow> cstate \<Rightarrow> citem \<Rightarrow> frame list \<Rightarrow> engine_error + pstate"
where
  "class_atom neg items cst atom stack =
     (case cst of
        CS0 \<Rightarrow> Inr (Class neg items (CS1 atom), stack)
      | CS1 a \<Rightarrow>
          if atom = CChar CHR ''-'' then Inr (Class neg items (CS2 a), stack)
          else Inr (Class neg (a # items) (CS1 atom), stack)
      | CS2 a \<Rightarrow>
          (case (range_end a, range_end atom) of
             (Some x, Some y) \<Rightarrow>
               if (of_char x :: nat) \<le> of_char y
               then Inr (Class neg (CRange x y # items) CS0, stack)
               else Inl SyntaxError
           | _ \<Rightarrow> Inl Unsupported))"

definition close_class :: "bool \<Rightarrow> citem list \<Rightarrow> cstate \<Rightarrow> frame list \<Rightarrow> engine_error + pstate" where
  "close_class neg items cst stack =
     (let items' = (case cst of
                      CS0 \<Rightarrow> items
                    | CS1 a \<Rightarrow> a # items
                    | CS2 a \<Rightarrow> CChar CHR ''-'' # a # items)
      in push_term (if neg then RNCls (rev items') else RCls (rev items')) Atom stack)"

definition step_class ::
  "bool \<Rightarrow> citem list \<Rightarrow> cstate \<Rightarrow> frame list \<Rightarrow> char \<Rightarrow> engine_error + pstate"
where
  "step_class neg items cst stack c =
     (if c = CHR '']'' then close_class neg items cst stack
      else if c = bslash then Inr (ClassEscape neg items cst, stack)
      else class_atom neg items cst (CChar c) stack)"

fun step :: "bool \<Rightarrow> pstate \<Rightarrow> char \<Rightarrow> engine_error + pstate" where
  "step dotall (Normal q, stack) c = step_normal dotall q stack c"
| "step dotall (Escape, stack) c =
     (if supported_escape c then push_term (REsc c) Atom stack else Inl Unsupported)"
| "step dotall (Open0, stack) c =
     (if c = CHR ''?'' then Inr (Open1, stack)
      else step_normal dotall NoAtom (Frame Capturing [] [] # stack) c)"
| "step dotall (Open1, stack) c =
     (if c = CHR '':'' then Inr (Normal NoAtom, Frame NonCapturing [] [] # stack)
      else if c = CHR ''='' then Inr (Normal NoAtom, Frame Lookahead [] [] # stack)
      else if c = CHR ''!'' then Inr (Normal NoAtom, Frame NegLookahead [] [] # stack)
      else if c = CHR ''<'' then Inr (Open2, stack)
      else Inl Unsupported)"
| "step dotall (Open2, stack) c =
     (if c = CHR ''='' then Inr (Normal NoAtom, Frame Lookbehind [] [] # stack)
      else if c = CHR ''!'' then Inr (Normal NoAtom, Frame NegLookbehind [] [] # stack)
      else Inl Unsupported)"
| "step dotall (ClassStart, stack) c =
     (if c = CHR ''^'' then Inr (Class True [] CS0, stack)
      else step_class False [] CS0 stack c)"
| "step dotall (Class neg items cst, stack) c = step_class neg items cst stack c"
| "step dotall (ClassEscape neg items cst, stack) c =
     (if supported_escape c then class_atom neg items cst (CEsc c) stack else Inl Unsupported)"

fun run :: "bool \<Rightarrow> string \<Rightarrow> pstate \<Rightarrow> engine_error + pstate" where
  "run dotall [] st = Inr st"
| "run dotall (c # cs) st =
     (case step dotall st c of
        Inl e \<Rightarrow> Inl e
      | Inr st' \<Rightarrow> run dotall cs st')"

definition start :: pstate where
  "start = (Normal NoAtom, [Frame Top [] []])"

fun finish :: "pstate \<Rightarrow> engine_error + regex" where
  "finish (Normal q, [f]) = Inr (frame_tree f)"
| "finish st = Inl SyntaxError"

definition compile :: "bool \<Rightarrow> string \<Rightarrow> engine_error + regex" where
  "compile dotall text =
     (case run dotall text start of
        Inl e \<Rightarrow> Inl e
      | Inr st \<Rightarrow> finish st)"

text \<open>\<^verbatim>\<open>new RegExp(regexString)\<close>, without flags.\<close>

definition RegExp_new :: "string \<Rightarrow> engine_error + regex" where
  "RegExp_new regexString = compile False regexString"

section \<open>The pattern fragments of we-api-finder.js\<close>

text \<open>
  The fragments as the program writes them (lines 18 to 25; a template substitution is a
  concatenation).
\<close>

definition RE_BEFORE :: string where
  "RE_BEFORE = ''(?:[!%&()*+,'' @ [bslash] @ ''-./:;<=>?[^{|}~'' @ [bslash] @ ''n]|^)'' @ [bslash] @ ''s*''"

definition RE_AFTER :: string where
  "RE_AFTER = [bslash] @ ''s*(?:[%&()*+,'' @ [bslash] @ ''-./:;<=>?['' @ [bslash] @ '']^{|}'' @ [bslash] @ ''n]|$)''"

definition RE_DOT :: string where
  "RE_DOT = [bslash] @ ''s*'' @ [bslash] @ ''??'' @ [bslash] @ ''.'' @ [bslash] @ ''s*''"

definition RE_CHROME_OR_BROWSER_DOT :: string where
  "RE_CHROME_OR_BROWSER_DOT = ''(?:chrome|browser)'' @ RE_DOT"

definition RE_VAR_CHAR_START :: string where
  "RE_VAR_CHAR_START = ''[A-Za-z_$]''"

definition RE_VAR_CHAR_END :: string where
  "RE_VAR_CHAR_END = RE_VAR_CHAR_START @ ''[0-9]*''"

definition RE_ALIAS_DOT :: string where
  "RE_ALIAS_DOT = RE_VAR_CHAR_END @ RE_DOT"

definition RE_RHS_AFTER :: string where
  "RE_RHS_AFTER = [bslash] @ ''s*(?:[),;'' @ [bslash] @ '']{}:]|'' @ [bslash] @ ''|'' @ [bslash] @ ''|'' @ ''|''
     @ [bslash] @ ''?'' @ [bslash] @ ''?|$|'' @ [bslash] @ ''n(?='' @ [bslash] @ ''s*'' @ RE_VAR_CHAR_START @ ''))''"

text \<open>
  The two regular expression literals of \<^verbatim>\<open>addSource\<close>, line comments (not after a
  colon) and block comments (with the \<^verbatim>\<open>s\<close> flag), as syntax trees; \<open>comment_patterns\<close>
  below shows that they are what the parser makes of the literals' text.
\<close>

definition RE_LINE_COMMENT :: regex where
  "RE_LINE_COMMENT =
     RSeq (RNotBehind (RChr CHR '':''))
          (RSeq (REsc CHR ''/'') (RSeq (REsc CHR ''/'') (RStar RDot)))"

definition RE_BLOCK_COMMENT :: regex where
  "RE_BLOCK_COMMENT =
     RSeq (REsc CHR ''/'') (RSeq (REsc CHR ''*'')
          (RSeq (RLazy RDotAll) (RSeq (REsc CHR ''*'') (REsc CHR ''/''))))"

section \<open>compileQuery\<close>

text \<open>\<^verbatim>\<open>query.split(".")\<close>: one part more than there are dots; parts may be empty.\<close>

fun split_dot :: "string \<Rightarrow> string list" where
  "split_dot [] = [[]]"
| "split_dot (c # cs) =
     (if c = CHR ''.'' then [] # split_dot cs
      else (case split_dot cs of
              p # ps \<Rightarrow> (c # p) # ps
            | [] \<Rightarrow> [[c]]))"

definition startsWith :: "string \<Rightarrow> string \<Rightarrow> bool" where
  "startsWith s p \<longleftrightarrow> take (length p) s = p"

text \<open>\<^verbatim>\<open>parts.join(sep)\<close>.\<close>

fun join :: "string \<Rightarrow> string list \<Rightarrow> string" where
  "join sep [] = []"
| "join sep [x] = x"
| "join sep (x # y # ys) = x @ sep @ join sep (y # ys)"

text \<open>
  A \<^verbatim>\<open>RegExp\<close> object: its source text and what the engine compiled it to. The engine's
  constructor is a parameter \<open>mk\<close> of the compiler, so that what is proved of the compiler
  holds for every engine; \<open>RegExp_new\<close> above is the one used on concrete texts.

  \<^verbatim>\<open>sharedRegExps\<close> maps pattern source text to the \<^verbatim>\<open>RegExp\<close> object made from it.
  \<open>newRegExp\<close> returns the object already stored under the source text, if there is one.
  When the constructor throws, nothing is stored and the error goes to the caller; what
  was stored before stays stored, so every function returns the cache as it leaves it.
\<close>

record 'c RegExp =
  re_source :: string
  re_compiled :: 'c

type_synonym 'c regexp_cache = "(string \<times> 'c RegExp) list"

definition newRegExp ::
  "(string \<Rightarrow> engine_error + 'c) \<Rightarrow> string \<Rightarrow> 'c regexp_cache
     \<Rightarrow> (engine_error + 'c RegExp) \<times> 'c regexp_cache"
where
  "newRegExp mk regexString sharedRegExps =
     (case map_of sharedRegExps regexString of
        Some re \<Rightarrow> (Inr re, sharedRegExps)
      | None \<Rightarrow>
          (case mk regexString of
             Inl e \<Rightarrow> (Inl e, sharedRegExps)
           | Inr c \<Rightarrow>
               (Inr \<lparr>re_source = regexString, re_compiled = c\<rparr>,
                sharedRegExps @ [(regexString, \<lparr>re_source = regexString, re_compiled = c\<rparr>)])))"

text \<open>The pattern text that \<^verbatim>\<open>re_any\<close>, \<^verbatim>\<open>re_dot\<close> and \<^verbatim>\<open>re_rhs\<close> build.\<close>

definition any_text :: "string \<Rightarrow> string" where
  "any_text pattern = RE_BEFORE @ ''(?:'' @ pattern @ '')'' @ RE_AFTER"

definition dot_text :: "string \<Rightarrow> string" where
  "dot_text pattern = RE_ALIAS_DOT @ ''(?:'' @ pattern @ '')'' @ RE_AFTER"

definition rhs_text :: "string \<Rightarrow> string" where
  "rhs_text pattern = RE_BEFORE @ ''(?:'' @ pattern @ '')'' @ RE_RHS_AFTER"

definition re_any ::
  "(string \<Rightarrow> engine_error + 'c) \<Rightarrow> string \<Rightarrow> 'c regexp_cache
     \<Rightarrow> (engine_error + 'c RegExp) \<times> 'c regexp_cache"
where
  "re_any mk pattern cache = newRegExp mk (any_text pattern) cache"

definition re_dot ::
  "(string \<Rightarrow> engine_error + 'c) \<Rightarrow> string \<Rightarrow> 'c regexp_cache
     \<Rightarrow> (engine_error + 'c RegExp) \<times> 'c regexp_cache"
where
  "re_dot mk pattern cache = newRegExp mk (dot_text pattern) cache"

definition re_rhs ::
  "(string \<Rightarrow> engine_error + 'c) \<Rightarrow> string \<Rightarrow> 'c regexp_cache
     \<Rightarrow> (engine_error + 'c RegExp) \<times> 'c regexp_cache"
where
  "re_rhs mk pattern cache = newRegExp mk (rhs_text pattern) cache"

text \<open>
  \<^verbatim>\<open>addRegExps(re_rhs(a), re_dot(b))\<close>: both patterns are made, in this order, then pushed
  as one condition. After an error nothing more is done.
\<close>

definition add_alias ::
  "(string \<Rightarrow> engine_error + 'c) \<Rightarrow> string \<Rightarrow> string
     \<Rightarrow> (engine_error + 'c RegExp list list) \<times> 'c regexp_cache
     \<Rightarrow> (engine_error + 'c RegExp list list) \<times> 'c regexp_cache"
where
  "add_alias mk a b st =
     (case st of
        (Inl e, cache) \<Rightarrow> (Inl e, cache)
      | (Inr compiledPatterns, cache) \<Rightarrow>
          (case re_rhs mk a cache of
             (Inl e, cache1) \<Rightarrow> (Inl e, cache1)
           | (Inr ra, cache1) \<Rightarrow>
               (case re_dot mk b cache1 of
                  (Inl e, cache2) \<Rightarrow> (Inl e, cache2)
                | (Inr rb, cache2) \<Rightarrow> (Inr (compiledPatterns @ [[ra, rb]]), cache2))))"

definition compileQuery ::
  "(string \<Rightarrow> engine_error + 'c) \<Rightarrow> string \<Rightarrow> 'c regexp_cache
     \<Rightarrow> (engine_error + 'c RegExp list list) \<times> 'c regexp_cache"
where
  "compileQuery mk query sharedRegExps =
     (let parts = map (\<lambda>p. ''(?:'' @ p @ '')'') (split_dot query);
          hasRoot = (startsWith query ''browser.'' \<or> startsWith query ''chrome.'');
          st1 = (case re_any mk (join RE_DOT parts) sharedRegExps of
                   (Inl e, cache) \<Rightarrow> (Inl e, cache)
                 | (Inr r, cache) \<Rightarrow> (Inr [[r]], cache));
          st2 = (if 2 \<le> length parts \<and> \<not> hasRoot
                 then add_alias mk (RE_CHROME_OR_BROWSER_DOT @ parts ! 0)
                                   (join RE_DOT (drop 1 parts)) st1
                 else st1);
          st3 = (if 3 \<le> length parts
                 then add_alias mk (join RE_DOT (take 2 parts))
                                   (join RE_DOT (drop 2 parts)) st2
                 else st2);
          st4 = (if 4 \<le> length parts
                 then add_alias mk (join RE_DOT (take 3 parts))
                                   (join RE_DOT (drop 3 parts)) st3
                 else st3)
      in st4)"

section \<open>QueryCompiler and QueryMatcher (we-api-finder.js)\<close>

text \<open>
  JavaScript's \<^verbatim>\<open>Map\<close> and \<^verbatim>\<open>Set\<close> keep insertion order: a \<^verbatim>\<open>Map\<close> is an association
  list, a \<^verbatim>\<open>Set\<close> a list without repetition. The warning that \<^verbatim>\<open>addQuery\<close> prints for a
  duplicate is not part of the state. \<^verbatim>\<open>addQuery\<close> returns the error it throws, if any,
  and the compiler as it leaves it: when \<^verbatim>\<open>compileQuery\<close> throws, the map of queries
  is as before and the pattern cache holds what was stored before the error.
\<close>

record 'c QueryCompiler =
  qc_queriesAndPatterns :: "(string \<times> 'c RegExp list list) list"
  qc_sharedRegExps :: "'c regexp_cache"

definition new_QueryCompiler :: "'c QueryCompiler" where
  "new_QueryCompiler = \<lparr>qc_queriesAndPatterns = [], qc_sharedRegExps = []\<rparr>"

definition addQuery ::
  "(string \<Rightarrow> engine_error + 'c) \<Rightarrow> string \<Rightarrow> 'c QueryCompiler
     \<Rightarrow> engine_error option \<times> 'c QueryCompiler"
where
  "addQuery mk query qc =
     (if query \<in> fst ` set (qc_queriesAndPatterns qc) then (None, qc)
      else (case compileQuery mk query (qc_sharedRegExps qc) of
              (Inl e, cache) \<Rightarrow> (Some e, qc\<lparr>qc_sharedRegExps := cache\<rparr>)
            | (Inr compiledPatterns, cache) \<Rightarrow>
                (None,
                 \<lparr>qc_queriesAndPatterns = qc_queriesAndPatterns qc @ [(query, compiledPatterns)],
                  qc_sharedRegExps = cache\<rparr>)))"

definition set_add :: "'a \<Rightarrow> 'a list \<Rightarrow> 'a list" where
  "set_add x xs = (if x \<in> set xs then xs else xs @ [x])"

text \<open>
  A matcher owns two sets, the matched queries and the source texts. Its
  \<^verbatim>\<open>queriesAndPatterns\<close> is the compiler's \<^verbatim>\<open>Map\<close> itself, not a copy: \<^verbatim>\<open>findMatches\<close>
  reads what the map holds at the time of the call, so the content of the map is an
  argument of \<open>findMatches\<close>, and a matcher made by \<^verbatim>\<open>newQueryMatcher\<close> is run with the
  map of its compiler as it is then (see \<open>system_step\<close>).
\<close>

record QueryMatcher =
  matchedQueries :: "string list"
  sourceTexts :: "string list"

definition new_QueryMatcher :: QueryMatcher where
  "new_QueryMatcher = \<lparr>matchedQueries = [], sourceTexts = []\<rparr>"

definition strip_comments :: "string \<Rightarrow> string" where
  "strip_comments sourceText =
     replace_all RE_BLOCK_COMMENT (replace_all RE_LINE_COMMENT sourceText)"

definition addSource :: "string \<Rightarrow> QueryMatcher \<Rightarrow> QueryMatcher" where
  "addSource sourceText m =
     m\<lparr>sourceTexts := set_add (strip_comments sourceText) (set_add sourceText (sourceTexts m))\<rparr>"

text \<open>
  \<^verbatim>\<open>findMatches\<close>. \<open>test\<close> is the engine's \<^verbatim>\<open>regex.test(sourceText)\<close>;
  \<open>sharedRegExpResults\<close> is the per-call cache of pattern results, threaded through the
  short-circuiting \<^verbatim>\<open>every\<close> and \<^verbatim>\<open>some\<close>. Its key is the pattern, which stands for the
  one object that the compiler keeps per pattern source text.
\<close>

definition testMatch ::
  "('p \<Rightarrow> string \<Rightarrow> bool) \<Rightarrow> string list \<Rightarrow> 'p \<Rightarrow> ('p \<times> bool) list \<Rightarrow> bool \<times> ('p \<times> bool) list"
where
  "testMatch test srcs regex sharedRegExpResults =
     (case map_of sharedRegExpResults regex of
        Some res \<Rightarrow> (res, sharedRegExpResults)
      | None \<Rightarrow>
          (let res = list_ex (\<lambda>sourceText. test regex sourceText) srcs
           in (res, sharedRegExpResults @ [(regex, res)])))"

fun every_match ::
  "('p \<Rightarrow> string \<Rightarrow> bool) \<Rightarrow> string list \<Rightarrow> 'p list \<Rightarrow> ('p \<times> bool) list \<Rightarrow> bool \<times> ('p \<times> bool) list"
where
  "every_match test srcs [] cache = (True, cache)"
| "every_match test srcs (p # ps) cache =
     (case testMatch test srcs p cache of
        (res, cache') \<Rightarrow> if res then every_match test srcs ps cache' else (False, cache'))"

fun some_condition ::
  "('p \<Rightarrow> string \<Rightarrow> bool) \<Rightarrow> string list \<Rightarrow> 'p list list \<Rightarrow> ('p \<times> bool) list
     \<Rightarrow> bool \<times> ('p \<times> bool) list"
where
  "some_condition test srcs [] cache = (False, cache)"
| "some_condition test srcs (ps # rest) cache =
     (case every_match test srcs ps cache of
        (res, cache') \<Rightarrow> if res then (True, cache') else some_condition test srcs rest cache')"

fun findMatches_loop ::
  "('p \<Rightarrow> string \<Rightarrow> bool) \<Rightarrow> string list \<Rightarrow> (string \<times> 'p list list) list \<Rightarrow> string list
     \<Rightarrow> ('p \<times> bool) list \<Rightarrow> string list"
where
  "findMatches_loop test srcs [] matched cache = matched"
| "findMatches_loop test srcs ((query, compiledPatterns) # rest) matched cache =
     (if query \<in> set matched then findMatches_loop test srcs rest matched cache
      else (case some_condition test srcs compiledPatterns cache of
              (res, cache') \<Rightarrow>
                findMatches_loop test srcs rest
                  (if res then set_add query matched else matched) cache'))"

definition findMatches ::
  "('p \<Rightarrow> string \<Rightarrow> bool) \<Rightarrow> (string \<times> 'p list list) list \<Rightarrow> QueryMatcher \<Rightarrow> QueryMatcher"
where
  "findMatches test queriesAndPatterns m =
     m\<lparr>matchedQueries :=
         findMatches_loop test (sourceTexts m) queriesAndPatterns (matchedQueries m) []\<rparr>"

definition getMatchedResults :: "QueryMatcher \<Rightarrow> string list" where
  "getMatchedResults m = matchedQueries m"

text \<open>\<^verbatim>\<open>regex.test(sourceText)\<close> on an object made by \<open>RegExp_new\<close>.\<close>

definition RegExp_test :: "regex RegExp \<Rightarrow> string \<Rightarrow> bool" where
  "RegExp_test re sourceText = regex_test (re_compiled re) sourceText"

text \<open>
  A compiler and a matcher made from it, and the calls on either: the matcher sees the
  queries added to the compiler after it was made.
\<close>

datatype system_call = AddQuery string | AddSource string | FindMatches

fun system_step ::
  "(string \<Rightarrow> engine_error + 'c) \<Rightarrow> ('c RegExp \<Rightarrow> string \<Rightarrow> bool) \<Rightarrow> system_call
     \<Rightarrow> 'c QueryCompiler \<times> QueryMatcher \<Rightarrow> 'c QueryCompiler \<times> QueryMatcher"
where
  "system_step mk test (AddQuery q) (qc, m) = (snd (addQuery mk q qc), m)"
| "system_step mk test (AddSource t) (qc, m) = (qc, addSource t m)"
| "system_step mk test FindMatches (qc, m) = (qc, findMatches test (qc_queriesAndPatterns qc) m)"

fun run_system ::
  "(string \<Rightarrow> engine_error + 'c) \<Rightarrow> ('c RegExp \<Rightarrow> string \<Rightarrow> bool) \<Rightarrow> system_call list
     \<Rightarrow> 'c QueryCompiler \<times> QueryMatcher \<Rightarrow> 'c QueryCompiler \<times> QueryMatcher"
where
  "run_system mk test [] st = st"
| "run_system mk test (c # cs) st = run_system mk test cs (system_step mk test c st)"

section \<open>The worker pool (we-api-finder/async.js)\<close>

text \<open>
  A worker is identified by the number of workers created before it, a promise by the
  number of promises created before it. Besides the fields of the class, the state holds
  what its methods act on: the \<^verbatim>\<open>kTaskResolver\<close> property of each worker, the settled
  promises (a promise that is not in the map is pending; it settles once), and the
  messages posted to workers. \<open>workersMade\<close> and \<open>promisesMade\<close> count the workers and
  promises made so far, so that a new one gets a fresh number; the workers the pool has
  are those in \<open>workers\<close>. \<open>numThreads\<close> is the number \<^verbatim>\<open>getNumThreads()\<close> gave: the
  integer in the environment variable \<^verbatim>\<open>WE_API_FINDER_NUM_THREADS\<close> when it is set, whatever
  its sign, else the number of processors. A variable that holds no number gives \<^verbatim>\<open>NaN\<close>,
  which is outside the model.
\<close>

datatype outcome = Fulfilled "string list" | Rejected string

record 'c WorkerPool =
  wp_queriesAndPatterns :: "(string \<times> 'c RegExp list list) list"
  numThreads :: int
  workers :: "nat list"
  idleWorkers :: "nat list"
  taskQueue :: "(nat \<times> string list) list"
  kTaskResolver :: "nat \<Rightarrow> nat option"
  promises :: "nat \<Rightarrow> outcome option"
  workersMade :: nat
  promisesMade :: nat
  posted :: "(nat \<times> string list) list"

definition new_WorkerPool :: "(string \<times> 'c RegExp list list) list \<Rightarrow> int \<Rightarrow> 'c WorkerPool" where
  "new_WorkerPool qps n =
     \<lparr>wp_queriesAndPatterns = qps, numThreads = n, workers = [], idleWorkers = [],
      taskQueue = [], kTaskResolver = (\<lambda>_. None), promises = (\<lambda>_. None),
      workersMade = 0, promisesMade = 0, posted = []\<rparr>"

definition getFreeWorker :: "'c WorkerPool \<Rightarrow> nat option \<times> 'c WorkerPool" where
  "getFreeWorker p =
     (case idleWorkers p of
        w # rest \<Rightarrow> (Some w, p\<lparr>idleWorkers := rest\<rparr>)
      | [] \<Rightarrow>
          if int (length (workers p)) < numThreads p
          then (Some (workersMade p), p\<lparr>workers := workers p @ [workersMade p], workersMade := Suc (workersMade p)\<rparr>)
          else (None, p))"

text \<open>The body of the dispatch loop once a worker is at hand: shift the task, set the resolver, post.\<close>

definition dispatch :: "nat \<Rightarrow> 'c WorkerPool \<Rightarrow> 'c WorkerPool" where
  "dispatch w p =
     (case taskQueue p of
        [] \<Rightarrow> p
      | (resolve, texts) # rest \<Rightarrow>
          p\<lparr>taskQueue := rest, kTaskResolver := (kTaskResolver p)(w := Some resolve),
            posted := posted p @ [(w, texts)]\<rparr>)"

function runNextTask :: "'c WorkerPool \<Rightarrow> 'c WorkerPool" where
  "runNextTask p =
     (if taskQueue p = [] then p
      else (case getFreeWorker p of
              (None, p') \<Rightarrow> p'
            | (Some worker, p') \<Rightarrow> runNextTask (dispatch worker p')))"
  by pat_completeness auto
termination
proof (relation "measure (\<lambda>p. length (taskQueue p))")
  show "wf (measure (\<lambda>p. length (taskQueue p)))" by simp
next
  fix p :: "'c WorkerPool" and x p' worker
  assume ne: "taskQueue p \<noteq> []" and g: "(x, p') = getFreeWorker p"
  have "taskQueue p' = taskQueue p"
    using g by (auto simp: getFreeWorker_def split: list.splits if_splits)
  then show "(dispatch worker p', p) \<in> measure (\<lambda>p. length (taskQueue p))"
    using ne by (cases "taskQueue p") (auto simp: dispatch_def)
qed

definition settle :: "nat \<Rightarrow> outcome \<Rightarrow> (nat \<Rightarrow> outcome option) \<Rightarrow> (nat \<Rightarrow> outcome option)" where
  "settle f v ps = (case ps f of None \<Rightarrow> ps(f := Some v) | Some _ \<Rightarrow> ps)"

definition queryResultsForSourceTexts :: "string list \<Rightarrow> 'c WorkerPool \<Rightarrow> nat \<times> 'c WorkerPool" where
  "queryResultsForSourceTexts texts p =
     (promisesMade p,
      runNextTask (p\<lparr>taskQueue := taskQueue p @ [(promisesMade p, texts)], promisesMade := Suc (promisesMade p)\<rparr>))"

text \<open>
  The two event handlers that \<^verbatim>\<open>getFreeWorker\<close> installs on a worker. A worker that was
  never given a task has no resolver: calling it throws, and the handler ends there.
\<close>

definition on_message :: "nat \<Rightarrow> string list \<Rightarrow> 'c WorkerPool \<Rightarrow> 'c WorkerPool" where
  "on_message worker result p =
     (case kTaskResolver p worker of
        None \<Rightarrow> p
      | Some resolve \<Rightarrow>
          runNextTask (p\<lparr>promises := settle resolve (Fulfilled result) (promises p),
                         idleWorkers := idleWorkers p @ [worker]\<rparr>))"

definition on_error :: "nat \<Rightarrow> string \<Rightarrow> 'c WorkerPool \<Rightarrow> 'c WorkerPool" where
  "on_error worker err p =
     (case kTaskResolver p worker of
        None \<Rightarrow> p
      | Some resolve \<Rightarrow> p\<lparr>promises := settle resolve (Rejected err) (promises p)\<rparr>)"

definition terminateAllWorkers :: "'c WorkerPool \<Rightarrow> 'c WorkerPool" where
  "terminateAllWorkers p = p\<lparr>workers := [], idleWorkers := []\<rparr>"

datatype pool_event =
    Submit "string list"
  | Message nat "string list"
  | Error nat string
  | TerminateAll

fun pool_step :: "pool_event \<Rightarrow> 'c WorkerPool \<Rightarrow> 'c WorkerPool" where
  "pool_step (Submit texts) p = snd (queryResultsForSourceTexts texts p)"
| "pool_step (Message w result) p = on_message w result p"
| "pool_step (Error w err) p = on_error w err p"
| "pool_step TerminateAll p = terminateAllWorkers p"

fun run_pool :: "pool_event list \<Rightarrow> 'c WorkerPool \<Rightarrow> 'c WorkerPool" where
  "run_pool [] p = p"
| "run_pool (e # es) p = run_pool es (pool_step e p)"

section \<open>The asynchronous QueryCompiler (we-api-finder/async.js)\<close>

datatype error = AddQueryAfterNewQueryMatcher | EngineError engine_error

record 'c AsyncQueryCompiler =
  qcInternal :: "'c QueryCompiler"
  workerPool :: "'c WorkerPool option"

definition new_AsyncQueryCompiler :: "'c AsyncQueryCompiler" where
  "new_AsyncQueryCompiler = \<lparr>qcInternal = new_QueryCompiler, workerPool = None\<rparr>"

text \<open>
  A call returns the error it throws, if any, and the state it leaves behind: its own
  error when there is a worker pool, else what the inner \<^verbatim>\<open>addQuery\<close> throws.
\<close>

definition async_addQuery ::
  "(string \<Rightarrow> engine_error + 'c) \<Rightarrow> string \<Rightarrow> 'c AsyncQueryCompiler
     \<Rightarrow> error option \<times> 'c AsyncQueryCompiler"
where
  "async_addQuery mk query c =
     (if workerPool c \<noteq> None then (Some AddQueryAfterNewQueryMatcher, c)
      else (case addQuery mk query (qcInternal c) of
              (e, qc) \<Rightarrow> (map_option EngineError e, c\<lparr>qcInternal := qc\<rparr>)))"

text \<open>
  \<open>nt\<close> is what \<^verbatim>\<open>getNumThreads()\<close> returns when the pool is made. The pool is given
  the compiler's map of queries; the map does not change as long as the compiler holds
  the pool, because \<^verbatim>\<open>addQuery\<close> is refused then, so the content of the map when the pool
  is made is what the pool holds (\<open>pool_has_the_map\<close> below).
\<close>

definition async_newQueryMatcher :: "int \<Rightarrow> 'c AsyncQueryCompiler \<Rightarrow> 'c AsyncQueryCompiler" where
  "async_newQueryMatcher nt c =
     (case workerPool c of
        None \<Rightarrow> c\<lparr>workerPool := Some (new_WorkerPool (qc_queriesAndPatterns (qcInternal c)) nt)\<rparr>
      | Some _ \<Rightarrow> c)"

text \<open>\<^verbatim>\<open>destroy\<close> terminates the pool's workers and lets go of the pool.\<close>

definition destroy :: "'c AsyncQueryCompiler \<Rightarrow> 'c AsyncQueryCompiler" where
  "destroy c =
     (case workerPool c of
        None \<Rightarrow> c
      | Some p \<Rightarrow> c\<lparr>workerPool := None\<rparr>)"

text \<open>
  Sequences of calls on the compiler. A call that throws leaves the compiler as
  \<open>async_addQuery\<close> says, and the calls after it are made on that.
\<close>

datatype compiler_call = AddQueryCall string | NewQueryMatcher | Destroy

fun compiler_step ::
  "(string \<Rightarrow> engine_error + 'c) \<Rightarrow> int \<Rightarrow> compiler_call \<Rightarrow> 'c AsyncQueryCompiler
     \<Rightarrow> 'c AsyncQueryCompiler"
where
  "compiler_step mk nt (AddQueryCall q) c = snd (async_addQuery mk q c)"
| "compiler_step mk nt NewQueryMatcher c = async_newQueryMatcher nt c"
| "compiler_step mk nt Destroy c = destroy c"

fun run_compiler ::
  "(string \<Rightarrow> engine_error + 'c) \<Rightarrow> int \<Rightarrow> compiler_call list \<Rightarrow> 'c AsyncQueryCompiler
     \<Rightarrow> 'c AsyncQueryCompiler"
where
  "run_compiler mk nt [] c = c"
| "run_compiler mk nt (x # xs) c = run_compiler mk nt xs (compiler_step mk nt x c)"

section \<open>Definitions used in the proofs\<close>

text \<open>
  Parsing inside a group: \<open>rebase_stack k S st\<close> is the stack \<open>st\<close> of a parser that began
  on its own, put on top of the stack \<open>S\<close> of a parser that has just opened a group of
  kind \<open>k\<close>. The bottom frame of \<open>st\<close> becomes the frame of the group.
\<close>

fun rebase_stack :: "gkind \<Rightarrow> frame list \<Rightarrow> frame list \<Rightarrow> frame list" where
  "rebase_stack k S [] = []"
| "rebase_stack k S [Frame k0 alts terms] = Frame k alts terms # S"
| "rebase_stack k S (f # g # r) = f # rebase_stack k S (g # r)"

text \<open>
  The syntax trees of the fragments, as lists of terms in sequence (\<open>fragment_trees\<close>
  below shows that the parser makes them of the fragments' text), and the trees of the
  patterns \<open>any\<close>, \<open>dot\<close> and \<open>rhs\<close> of a body whose tree is \<open>B\<close>. \<open>spec_IDENT\<close> is the
  specification's \<open>IDENT\<close>, \<^verbatim>\<open>[A-Za-z_$][A-Za-z_$0-9]*\<close>, and \<open>spec_dot_text\<close> its \<open>dot(B)\<close>
  built with it, to compare with what the program builds. \<open>in_class\<close> is membership in a
  character class.
\<close>

definition chars :: "string \<Rightarrow> citem list" where
  "chars w = map CChar w"

definition ws_star :: regex where
  "ws_star = RStar (REsc CHR ''s'')"

definition BEFORE_terms :: "regex list" where
  "BEFORE_terms =
     [RGroup (RAlt
        (RCls (chars ''!%&()*+,'' @ [CEsc CHR ''-''] @ chars ''./:;<=>?[^{|}~''
               @ [CEsc CHR ''n'']))
        RBol),
      ws_star]"

definition AFTER_terms :: "regex list" where
  "AFTER_terms =
     [ws_star,
      RGroup (RAlt
        (RCls (chars ''%&()*+,'' @ [CEsc CHR ''-''] @ chars ''./:;<=>?[''
               @ [CEsc CHR '']''] @ chars ''^{|}'' @ [CEsc CHR ''n'']))
        REol)]"

definition DOT_terms :: "regex list" where
  "DOT_terms = [ws_star, ROpt (REsc CHR ''?''), REsc CHR ''.'', ws_star]"

definition VAR_CHAR_START_tree :: regex where
  "VAR_CHAR_START_tree =
     RCls [CRange CHR ''A'' CHR ''Z'', CRange CHR ''a'' CHR ''z'', CChar CHR ''_'',
           CChar CHR ''$'']"

definition VAR_CHAR_END_terms :: "regex list" where
  "VAR_CHAR_END_terms = [VAR_CHAR_START_tree, RStar (RCls [CRange CHR ''0'' CHR ''9''])]"

definition RHS_AFTER_terms :: "regex list" where
  "RHS_AFTER_terms =
     [ws_star,
      RGroup
        (RAlt (RCls (chars ''),;'' @ [CEsc CHR '']''] @ chars ''{}:''))
        (RAlt (RSeq (REsc CHR ''|'') (REsc CHR ''|''))
        (RAlt (RSeq (REsc CHR ''?'') (REsc CHR ''?''))
        (RAlt REol
              (RSeq (REsc CHR ''n'') (RAhead (RSeq ws_star VAR_CHAR_START_tree)))))))]"

definition any_tree :: "regex \<Rightarrow> regex" where
  "any_tree B = seq_of (BEFORE_terms @ [RGroup B] @ AFTER_terms)"

definition dot_tree :: "regex \<Rightarrow> regex" where
  "dot_tree B = seq_of (VAR_CHAR_END_terms @ DOT_terms @ [RGroup B] @ AFTER_terms)"

definition rhs_tree :: "regex \<Rightarrow> regex" where
  "rhs_tree B = seq_of (BEFORE_terms @ [RGroup B] @ RHS_AFTER_terms)"

definition spec_IDENT :: string where
  "spec_IDENT = ''[A-Za-z_$][A-Za-z_$0-9]*''"

definition IDENT_terms :: "regex list" where
  "IDENT_terms =
     [VAR_CHAR_START_tree,
      RStar (RCls [CRange CHR ''A'' CHR ''Z'', CRange CHR ''a'' CHR ''z'', CChar CHR ''_'',
                   CChar CHR ''$'', CRange CHR ''0'' CHR ''9''])]"

definition spec_dot_text :: "string \<Rightarrow> string" where
  "spec_dot_text pattern = spec_IDENT @ RE_DOT @ ''(?:'' @ pattern @ '')'' @ RE_AFTER"

definition spec_dot_tree :: "regex \<Rightarrow> regex" where
  "spec_dot_tree B = seq_of (IDENT_terms @ DOT_terms @ [RGroup B] @ AFTER_terms)"


definition in_class :: "citem list \<Rightarrow> char \<Rightarrow> bool" where
  "in_class items c = list_ex (\<lambda>it. citem_match it c) items"

text \<open>A pattern matches some stored source text; a cache of pattern results that is right.\<close>

definition any_match :: "('p \<Rightarrow> string \<Rightarrow> bool) \<Rightarrow> string list \<Rightarrow> 'p \<Rightarrow> bool" where
  "any_match test srcs p \<longleftrightarrow> (\<exists>s\<in>set srcs. test p s)"

definition results_ok :: "('p \<Rightarrow> string \<Rightarrow> bool) \<Rightarrow> string list \<Rightarrow> ('p \<times> bool) list \<Rightarrow> bool" where
  "results_ok test srcs cache \<longleftrightarrow> (\<forall>p b. map_of cache p = Some b \<longrightarrow> b = any_match test srcs p)"

definition condition_holds :: "('p \<Rightarrow> string \<Rightarrow> bool) \<Rightarrow> string list \<Rightarrow> 'p list list \<Rightarrow> bool" where
  "condition_holds test srcs cps \<longleftrightarrow> (\<exists>cond\<in>set cps. \<forall>p\<in>set cond. \<exists>s\<in>set srcs. test p s)"
text \<open>The pattern cache holds each pattern under its own source text.\<close>

definition regexps_ok :: "'c regexp_cache \<Rightarrow> bool" where
  "regexps_ok cache \<longleftrightarrow> (\<forall>k re. map_of cache k = Some re \<longrightarrow> re_source re = k)"




text \<open>
  The worker count is within the configured number of threads, or there is no worker
  when that number is negative.
\<close>

definition count_ok :: "'c WorkerPool \<Rightarrow> bool" where
  "count_ok p \<longleftrightarrow> int (length (workers p)) \<le> max 0 (numThreads p)"

text \<open>
  The messages posted to a worker; a worker that exists and is not in the idle queue.
\<close>

definition posted_to :: "nat \<Rightarrow> 'c WorkerPool \<Rightarrow> (nat \<times> string list) list" where
  "posted_to w p = filter (\<lambda>m. fst m = w) (posted p)"

definition retired :: "nat \<Rightarrow> 'c WorkerPool \<Rightarrow> bool" where
  "retired w p \<longleftrightarrow> w \<notin> set (idleWorkers p) \<and> w < workersMade p"

section \<open>The parser\<close>

lemma rebase_stack_Cons:
  "r \<noteq> [] \<Longrightarrow> rebase_stack k S (f # r) = f # rebase_stack k S r"
  by (cases r) simp_all

lemma rebase_stack_nonempty: "st \<noteq> [] \<Longrightarrow> rebase_stack k S st \<noteq> []"
  by (induction k S st rule: rebase_stack.induct) simp_all

lemma stack_cases:
  assumes "st = [] \<Longrightarrow> P" and "\<And>k0 a t. st = [Frame k0 a t] \<Longrightarrow> P"
    and "\<And>k0 a t g r. st = Frame k0 a t # g # r \<Longrightarrow> P"
  shows P
proof (cases st)
  case Nil
  with assms(1) show ?thesis .
next
  case (Cons f r)
  obtain k0 a t where f: "f = Frame k0 a t" by (cases f)
  show ?thesis
  proof (cases r)
    case Nil
    with Cons f assms(2) show ?thesis by simp
  next
    case (Cons g r')
    with \<open>st = f # r\<close> f assms(3) show ?thesis by simp
  qed
qed

lemma push_term_rebase:
  assumes "push_term t q st = Inr (m, st')"
  shows "push_term t q (rebase_stack k S st) = Inr (m, rebase_stack k S st') \<and> st' \<noteq> []"
proof (cases st rule: stack_cases)
  case 1
  with assms show ?thesis by (simp add: push_term_def)
next
  case (2 k0 a t)
  with assms show ?thesis by (auto simp: push_term_def)
next
  case (3 k0 a t g r)
  with assms show ?thesis by (auto simp: push_term_def)
qed

lemma quantifier_rebase:
  assumes "quantifier c q st = Inr (m, st')"
  shows "quantifier c q (rebase_stack k S st) = Inr (m, rebase_stack k S st') \<and> st' \<noteq> []"
proof (cases st rule: stack_cases)
  case 1
  with assms show ?thesis by (simp add: quantifier_def split: qstate.splits if_splits)
next
  case (2 k0 a t)
  with assms show ?thesis
    by (cases q; cases t)
       (auto simp: quantifier_def split: if_splits option.splits)
next
  case (3 k0 a t g r)
  with assms show ?thesis
    by (cases q; cases t)
       (auto simp: quantifier_def split: if_splits option.splits)
qed

lemma close_group_rebase:
  assumes "close_group st = Inr (m, st')"
  shows "close_group (rebase_stack k S st) = Inr (m, rebase_stack k S st') \<and> st' \<noteq> []"
proof (cases st rule: stack_cases)
  case 1
  with assms show ?thesis by (simp add: close_group_def)
next
  case (2 k0 a t)
  with assms show ?thesis by (simp add: close_group_def)
next
  case (3 k0 a t g r)
  obtain k1 a1 t1 where g: "g = Frame k1 a1 t1" by (cases g)
  show ?thesis
  proof (cases r)
    case Nil
    with 3 g assms show ?thesis by (auto simp: close_group_def)
  next
    case (Cons h r')
    with 3 g assms show ?thesis by (auto simp: close_group_def)
  qed
qed

lemma next_alternative_rebase:
  assumes "next_alternative st = Inr (m, st')"
  shows "next_alternative (rebase_stack k S st) = Inr (m, rebase_stack k S st') \<and> st' \<noteq> []"
proof (cases st rule: stack_cases)
  case 1
  with assms show ?thesis by (simp add: next_alternative_def)
next
  case (2 k0 a t)
  with assms show ?thesis by (auto simp: next_alternative_def)
next
  case (3 k0 a t g r)
  with assms show ?thesis by (auto simp: next_alternative_def)
qed

lemma step_normal_rebase:
  assumes "step_normal d q st c = Inr (m, st')" and "st \<noteq> []"
  shows "step_normal d q (rebase_stack k S st) c = Inr (m, rebase_stack k S st') \<and> st' \<noteq> []"
proof -
  consider (simple) "c = bslash \<or> c = CHR ''('' \<or> c = CHR ''[''"
    | (close) "c = CHR '')''"
    | (alt) "c = CHR ''|''"
    | (quant) "c = CHR ''*'' \<or> c = CHR ''+'' \<or> c = CHR ''?''"
    | (brace) "c = CHR ''{''"
    | (other) "c \<noteq> bslash" "c \<noteq> CHR ''(''" "c \<noteq> CHR '')''" "c \<noteq> CHR ''[''" "c \<noteq> CHR ''|''"
        "c \<noteq> CHR ''*''" "c \<noteq> CHR ''+''" "c \<noteq> CHR ''?''" "c \<noteq> CHR ''{''"
    by blast
  then show ?thesis
  proof cases
    case simple
    with assms show ?thesis by (auto simp: step_normal_def bslash_def split: if_splits)
  next
    case close
    with assms(1) have "close_group st = Inr (m, st')" by (simp add: step_normal_def bslash_def)
    from close_group_rebase [OF this] close show ?thesis by (simp add: step_normal_def bslash_def)
  next
    case alt
    with assms(1) have "next_alternative st = Inr (m, st')" by (simp add: step_normal_def bslash_def)
    from next_alternative_rebase [OF this] alt show ?thesis by (simp add: step_normal_def bslash_def)
  next
    case quant
    with assms(1) have "quantifier c q st = Inr (m, st')"
      by (auto simp: step_normal_def bslash_def)
    from quantifier_rebase [OF this] quant show ?thesis
      by (auto simp: step_normal_def bslash_def)
  next
    case brace
    with assms(1) show ?thesis by (simp add: step_normal_def bslash_def)
  next
    case other
    let ?t = "if c = CHR ''^'' then RBol else if c = CHR ''$'' then REol
              else if c = CHR ''.'' then (if d then RDotAll else RDot) else RChr c"
    let ?q = "if c = CHR ''^'' \<or> c = CHR ''$'' then NoAtom else Atom"
    have eq: "step_normal d q x c = push_term ?t ?q x" for x
      using other by (simp add: step_normal_def)
    from assms(1) have "push_term ?t ?q st = Inr (m, st')" by (simp only: eq)
    from push_term_rebase [OF this, of k S] show ?thesis by (simp add: eq)
  qed
qed

lemma class_atom_rebase:
  assumes "class_atom neg items cst a st = Inr (m, st')" and "st \<noteq> []"
  shows "class_atom neg items cst a (rebase_stack k S st) = Inr (m, rebase_stack k S st')
         \<and> st' \<noteq> []"
proof (cases cst)
  case CS0
  with assms show ?thesis by (auto simp: class_atom_def)
next
  case (CS1 x)
  with assms show ?thesis by (auto simp: class_atom_def split: if_splits)
next
  case (CS2 x)
  with assms show ?thesis
    by (cases "range_end x"; cases "range_end a") (auto simp: class_atom_def split: if_splits)
qed

lemma step_class_rebase:
  assumes "step_class neg items cst st c = Inr (m, st')" and "st \<noteq> []"
  shows "step_class neg items cst (rebase_stack k S st) c = Inr (m, rebase_stack k S st')
         \<and> st' \<noteq> []"
proof (cases "c = CHR '']''")
  case True
  with assms(1) obtain t where "push_term t Atom st = Inr (m, st')"
    and "\<And>x. close_class neg items cst x = push_term t Atom x"
    by (auto simp: step_class_def close_class_def Let_def)
  with push_term_rebase [of t Atom st m st' k S] True show ?thesis
    by (simp add: step_class_def)
next
  case False
  show ?thesis
  proof (cases "c = bslash")
    case True
    with False assms show ?thesis by (auto simp: step_class_def)
  next
    case nb: False
    with False assms(1) have "class_atom neg items cst (CChar c) st = Inr (m, st')"
      by (simp add: step_class_def)
    from class_atom_rebase [OF this assms(2)] False nb show ?thesis
      by (simp add: step_class_def)
  qed
qed

lemma step_rebase:
  assumes "step d (mo, st) c = Inr (m, st')" and "st \<noteq> []"
  shows "step d (mo, rebase_stack k S st) c = Inr (m, rebase_stack k S st') \<and> st' \<noteq> []"
proof (cases mo)
  case (Normal q)
  with assms(1) have "step_normal d q st c = Inr (m, st')" by simp
  from step_normal_rebase [OF this assms(2)] Normal show ?thesis by simp
next
  case Escape
  with assms(1) have "supported_escape c" and "push_term (REsc c) Atom st = Inr (m, st')"
    by (simp_all split: if_splits)
  with push_term_rebase [of "REsc c" Atom st m st' k S] Escape show ?thesis by simp
next
  case Open0
  show ?thesis
  proof (cases "c = CHR ''?''")
    case True
    with Open0 assms show ?thesis by auto
  next
    case False
    with Open0 assms have s: "step_normal d NoAtom (Frame Capturing [] [] # st) c = Inr (m, st')"
      by simp
    have ne: "Frame Capturing [] [] # st \<noteq> []" by simp
    from step_normal_rebase [OF s ne, of k S] assms(2) Open0 False show ?thesis
      by (simp add: rebase_stack_Cons)
  qed
next
  case Open1
  with assms show ?thesis by (auto simp: rebase_stack_Cons split: if_splits)
next
  case Open2
  with assms show ?thesis by (auto simp: rebase_stack_Cons split: if_splits)
next
  case ClassStart
  show ?thesis
  proof (cases "c = CHR ''^''")
    case True
    with ClassStart assms show ?thesis by auto
  next
    case False
    with ClassStart assms(1) have "step_class False [] CS0 st c = Inr (m, st')" by simp
    from step_class_rebase [OF this assms(2)] ClassStart False show ?thesis by simp
  qed
next
  case (Class neg items cst)
  with assms(1) have "step_class neg items cst st c = Inr (m, st')" by simp
  from step_class_rebase [OF this assms(2)] Class show ?thesis by simp
next
  case (ClassEscape neg items cst)
  with assms(1) have "supported_escape c"
    and "class_atom neg items cst (CEsc c) st = Inr (m, st')"
    by (simp_all split: if_splits)
  with class_atom_rebase [of neg items cst "CEsc c" st m st' k S] assms(2) ClassEscape
  show ?thesis by simp
qed

lemma run_rebase:
  "run d cs (mo, st) = Inr (m, st') \<Longrightarrow> st \<noteq> [] \<Longrightarrow>
   run d cs (mo, rebase_stack k S st) = Inr (m, rebase_stack k S st')"
proof (induction cs arbitrary: mo st)
  case Nil
  then show ?case by simp
next
  case (Cons c cs)
  from Cons.prems(1) obtain m1 st1 where s: "step d (mo, st) c = Inr (m1, st1)"
    and r: "run d cs (m1, st1) = Inr (m, st')"
    by (auto split: sum.splits)
  from step_rebase [OF s Cons.prems(2), of k S]
  have s': "step d (mo, rebase_stack k S st) c = Inr (m1, rebase_stack k S st1)"
    and ne: "st1 \<noteq> []" by simp_all
  from Cons.IH [OF r ne] s' show ?case by simp
qed

lemma run_append:
  "run d (xs @ ys) st = (case run d xs st of Inl e \<Rightarrow> Inl e | Inr st' \<Rightarrow> run d ys st')"
  by (induction xs arbitrary: st) (auto split: sum.splits)

lemma compile_Inr:
  assumes "compile d cs = Inr B"
  shows "\<exists>q f. run d cs start = Inr (Normal q, [f]) \<and> frame_tree f = B"
proof -
  from assms obtain st where r: "run d cs start = Inr st" and f: "finish st = Inr B"
    by (auto simp: compile_def split: sum.splits)
  from f obtain q f' where "st = (Normal q, [f'])" and "frame_tree f' = B"
    by (cases st rule: finish.cases) auto
  with r show ?thesis by auto
qed

lemma run_group:
  assumes "compile d b = Inr B"
  shows "run d (''(?:'' @ b @ '')'') (Normal q0, Frame k alts terms # rest)
         = Inr (Normal Atom, Frame k alts (RGroup B # terms) # rest)"
proof -
  from compile_Inr [OF assms] obtain q f where r: "run d b start = Inr (Normal q, [f])"
    and t: "frame_tree f = B" by blast
  obtain k0 a0 t0 where f: "f = Frame k0 a0 t0" by (cases f)
  let ?S = "Frame k alts terms # rest"
  from run_rebase [OF r [unfolded start_def], of NonCapturing ?S]
  have "run d b (Normal NoAtom, Frame NonCapturing [] [] # ?S)
        = Inr (Normal q, Frame NonCapturing a0 t0 # ?S)"
    by (simp add: f)
  moreover have "run d ''(?:'' (Normal q0, ?S) = Inr (Normal NoAtom, Frame NonCapturing [] [] # ?S)"
    by (simp add: step_normal_def bslash_def)
  moreover have "run d '')'' (Normal q, Frame NonCapturing a0 t0 # ?S)
        = Inr (Normal Atom, Frame k alts (RGroup B # terms) # rest)"
    using t f by (simp add: step_normal_def bslash_def close_group_def)
  ultimately show ?thesis by (simp only: run_append sum.case)
qed

section \<open>The pattern engine\<close>

lemma star_ends_bounds:
  assumes f: "\<And>i j. i \<le> L \<Longrightarrow> j \<in> set (f i) \<Longrightarrow> j \<le> L"
  shows "i \<le> L \<Longrightarrow> j \<in> set (star_ends f n i) \<Longrightarrow> i \<le> j \<and> j \<le> L"
proof (induction n arbitrary: i)
  case 0
  then show ?case by simp
next
  case (Suc n)
  from Suc.prems(2) consider "j = i" | k where "k \<in> set (f i)" "i < k" "j \<in> set (star_ends f n k)"
    by auto
  then show ?case
  proof cases
    case 1
    with Suc.prems show ?thesis by simp
  next
    case 2
    from f [OF Suc.prems(1) 2(1)] have "k \<le> L" .
    from Suc.IH [OF this 2(3)] 2(2) show ?thesis by simp
  qed
qed

lemma lazy_ends_bounds:
  assumes f: "\<And>i j. i \<le> L \<Longrightarrow> j \<in> set (f i) \<Longrightarrow> j \<le> L"
  shows "i \<le> L \<Longrightarrow> j \<in> set (lazy_ends f n i) \<Longrightarrow> i \<le> j \<and> j \<le> L"
proof (induction n arbitrary: i)
  case 0
  then show ?case by simp
next
  case (Suc n)
  from Suc.prems(2) consider "j = i" | k where "k \<in> set (f i)" "i < k" "j \<in> set (lazy_ends f n k)"
    by auto
  then show ?case
  proof cases
    case 1
    with Suc.prems show ?thesis by simp
  next
    case 2
    from f [OF Suc.prems(1) 2(1)] have "k \<le> L" .
    from Suc.IH [OF this 2(3)] 2(2) show ?thesis by simp
  qed
qed

lemma ends_bounds:
  "i \<le> length s \<Longrightarrow> j \<in> set (ends r s i) \<Longrightarrow> i \<le> j \<and> j \<le> length s"
proof (induction r arbitrary: i j)
  case REps
  then show ?case by simp
next
  case (RChr c)
  then show ?case by (simp split: if_splits)
next
  case (REsc e)
  then show ?case by (simp split: if_splits)
next
  case RDot
  then show ?case by (simp split: if_splits)
next
  case RDotAll
  then show ?case by (simp split: if_splits)
next
  case (RCls items)
  then show ?case by (simp split: if_splits)
next
  case (RNCls items)
  then show ?case by (simp split: if_splits)
next
  case (RSeq a b)
  from RSeq.prems(2) obtain k where k: "k \<in> set (ends a s i)" and jb: "j \<in> set (ends b s k)"
    by (simp only: ends.simps set_concat set_map) blast
  from RSeq.IH(1) [OF RSeq.prems(1) k] have ik: "i \<le> k" "k \<le> length s" by simp_all
  from RSeq.IH(2) [OF ik(2) jb] ik show ?case by simp
next
  case (RAlt a b)
  from RAlt.prems(2) have "j \<in> set (ends a s i) \<or> j \<in> set (ends b s i)" by simp
  then show ?case
  proof
    assume "j \<in> set (ends a s i)"
    from RAlt.IH(1) [OF RAlt.prems(1) this] show ?thesis .
  next
    assume "j \<in> set (ends b s i)"
    from RAlt.IH(2) [OF RAlt.prems(1) this] show ?thesis .
  qed
next
  case (RStar r)
  have "\<And>i j. i \<le> length s \<Longrightarrow> j \<in> set (ends r s i) \<Longrightarrow> j \<le> length s"
    using RStar.IH by blast
  from star_ends_bounds [of "length s" "ends r s", OF this RStar.prems(1)] RStar.prems(2)
  show ?case by simp
next
  case (RLazy r)
  have "\<And>i j. i \<le> length s \<Longrightarrow> j \<in> set (ends r s i) \<Longrightarrow> j \<le> length s"
    using RLazy.IH by blast
  from lazy_ends_bounds [of "length s" "ends r s", OF this RLazy.prems(1)] RLazy.prems(2)
  show ?case by simp
next
  case (ROpt r)
  from ROpt.prems(2) have "j = i \<or> j \<in> set (ends r s i)" by simp blast
  then show ?case
  proof
    assume "j = i"
    with ROpt.prems(1) show ?thesis by simp
  next
    assume "j \<in> set (ends r s i)"
    from ROpt.IH [OF ROpt.prems(1) this] show ?thesis .
  qed
next
  case (ROptLazy r)
  from ROptLazy.prems(2) have "j = i \<or> j \<in> set (ends r s i)" by simp blast
  then show ?case
  proof
    assume "j = i"
    with ROptLazy.prems(1) show ?thesis by simp
  next
    assume "j \<in> set (ends r s i)"
    from ROptLazy.IH [OF ROptLazy.prems(1) this] show ?thesis .
  qed
next
  case (RPlus r)
  from RPlus.prems(2) obtain k where k: "k \<in> set (ends r s i)"
    and jk: "j \<in> set (star_ends (ends r s) (length s - k) k)"
    by (simp only: ends.simps set_concat set_map) blast
  from RPlus.IH [OF RPlus.prems(1) k] have ik: "i \<le> k" "k \<le> length s" by simp_all
  have "k \<le> j \<and> j \<le> length s"
  proof (rule star_ends_bounds [where f = "ends r s" and n = "length s - k"])
    show "\<And>i j. i \<le> length s \<Longrightarrow> j \<in> set (ends r s i) \<Longrightarrow> j \<le> length s"
      using RPlus.IH by blast
    show "k \<le> length s" by (rule ik(2))
    show "j \<in> set (star_ends (ends r s) (length s - k) k)" by (rule jk)
  qed
  with ik show ?case by simp
next
  case (RPlusLazy r)
  from RPlusLazy.prems(2) obtain k where k: "k \<in> set (ends r s i)"
    and jk: "j \<in> set (lazy_ends (ends r s) (length s - k) k)"
    by (simp only: ends.simps set_concat set_map) blast
  from RPlusLazy.IH [OF RPlusLazy.prems(1) k] have ik: "i \<le> k" "k \<le> length s" by simp_all
  have "k \<le> j \<and> j \<le> length s"
  proof (rule lazy_ends_bounds [where f = "ends r s" and n = "length s - k"])
    show "\<And>i j. i \<le> length s \<Longrightarrow> j \<in> set (ends r s i) \<Longrightarrow> j \<le> length s"
      using RPlusLazy.IH by blast
    show "k \<le> length s" by (rule ik(2))
    show "j \<in> set (lazy_ends (ends r s) (length s - k) k)" by (rule jk)
  qed
  with ik show ?case by simp
next
  case (RGroup r)
  from RGroup.prems(2) have "j \<in> set (ends r s i)" by simp
  from RGroup.IH [OF RGroup.prems(1) this] show ?case .
next
  case (RCapture r)
  from RCapture.prems(2) have "j \<in> set (ends r s i)" by simp
  from RCapture.IH [OF RCapture.prems(1) this] show ?case .
next
  case (RAhead r)
  from RAhead.prems(2) have "j = i" by (simp split: if_splits)
  with RAhead.prems(1) show ?case by simp
next
  case (RNotAhead r)
  from RNotAhead.prems(2) have "j = i" by (simp split: if_splits)
  with RNotAhead.prems(1) show ?case by simp
next
  case (RBehind r)
  from RBehind.prems(2) have "j = i" by (simp del: upt_Suc split: if_splits)
  with RBehind.prems(1) show ?case by simp
next
  case (RNotBehind r)
  from RNotBehind.prems(2) have "j = i" by (simp del: upt_Suc split: if_splits)
  with RNotBehind.prems(1) show ?case by simp
next
  case RBol
  then show ?case by (simp split: if_splits)
next
  case REol
  then show ?case by (simp split: if_splits)
qed

lemma star_ends_fuel:
  assumes f: "\<And>i j. i \<le> L \<Longrightarrow> j \<in> set (f i) \<Longrightarrow> j \<le> L"
  shows "i \<le> L \<Longrightarrow> L - i \<le> n \<Longrightarrow> L - i \<le> m \<Longrightarrow> star_ends f n i = star_ends f m i"
proof (induction n arbitrary: i m)
  case 0
  then have "i = L" by simp
  with f have "filter (\<lambda>j. i < j) (f i) = []" by (fastforce simp: filter_empty_conv)
  then show ?case by (cases m) simp_all
next
  case (Suc n)
  show ?case
  proof (cases m)
    case 0
    with Suc.prems have "i = L" by simp
    with f have "filter (\<lambda>j. i < j) (f i) = []" by (fastforce simp: filter_empty_conv)
    with 0 show ?thesis by simp
  next
    case (Suc m')
    have meq: "map (star_ends f n) (filter (\<lambda>j. i < j) (f i)) = map (star_ends f m') (filter (\<lambda>j. i < j) (f i))"
    proof (rule map_cong [OF refl])
      fix k assume "k \<in> set (filter (\<lambda>j. i < j) (f i))"
      then have k: "k \<in> set (f i)" "i < k" by simp_all
      from f [OF Suc.prems(1) k(1)] have kl: "k \<le> L" .
      with k(2) Suc.prems(2,3) Suc have "L - k \<le> n" "L - k \<le> m'" by simp_all
      from Suc.IH [OF kl this] show "star_ends f n k = star_ends f m' k" .
    qed
    show ?thesis unfolding Suc star_ends.simps meq ..
  qed
qed

lemma lazy_ends_fuel:
  assumes f: "\<And>i j. i \<le> L \<Longrightarrow> j \<in> set (f i) \<Longrightarrow> j \<le> L"
  shows "i \<le> L \<Longrightarrow> L - i \<le> n \<Longrightarrow> L - i \<le> m \<Longrightarrow> lazy_ends f n i = lazy_ends f m i"
proof (induction n arbitrary: i m)
  case 0
  then have "i = L" by simp
  with f have "filter (\<lambda>j. i < j) (f i) = []" by (fastforce simp: filter_empty_conv)
  then show ?case by (cases m) simp_all
next
  case (Suc n)
  show ?case
  proof (cases m)
    case 0
    with Suc.prems have "i = L" by simp
    with f have "filter (\<lambda>j. i < j) (f i) = []" by (fastforce simp: filter_empty_conv)
    with 0 show ?thesis by simp
  next
    case (Suc m')
    have meq: "map (lazy_ends f n) (filter (\<lambda>j. i < j) (f i)) = map (lazy_ends f m') (filter (\<lambda>j. i < j) (f i))"
    proof (rule map_cong [OF refl])
      fix k assume "k \<in> set (filter (\<lambda>j. i < j) (f i))"
      then have k: "k \<in> set (f i)" "i < k" by simp_all
      from f [OF Suc.prems(1) k(1)] have kl: "k \<le> L" .
      with k(2) Suc.prems(2,3) Suc have "L - k \<le> n" "L - k \<le> m'" by simp_all
      from Suc.IH [OF kl this] show "lazy_ends f n k = lazy_ends f m' k" .
    qed
    show ?thesis unfolding Suc lazy_ends.simps meq ..
  qed
qed

lemma repetition_bound_enough:
  assumes "i \<le> length s" and "length s - i \<le> n"
  shows "star_ends (ends r s) n i = ends (RStar r) s i"
    and "lazy_ends (ends r s) n i = ends (RLazy r) s i"
proof -
  have b: "\<And>i j. i \<le> length s \<Longrightarrow> j \<in> set (ends r s i) \<Longrightarrow> j \<le> length s"
    using ends_bounds by blast
  show "star_ends (ends r s) n i = ends (RStar r) s i"
    using star_ends_fuel [of "length s" "ends r s" i n "length s - i", OF b] assms by simp
  show "lazy_ends (ends r s) n i = ends (RLazy r) s i"
    using lazy_ends_fuel [of "length s" "ends r s" i n "length s - i", OF b] assms by simp
qed

lemma replace_loop_fuel:
  "i \<le> Suc (length s) \<Longrightarrow> Suc (length s) - i \<le> n \<Longrightarrow> Suc (length s) - i \<le> m \<Longrightarrow>
   replace_loop r s n i = replace_loop r s m i"
proof (induction n arbitrary: i m)
  case 0
  then have "length s < i" by simp
  then show ?case by (cases m) simp_all
next
  case (Suc n)
  show ?case
  proof (cases m)
    case 0
    with Suc.prems have "length s < i" by simp
    with 0 show ?thesis by simp
  next
    case (Suc m')
    show ?thesis
    proof (cases "length s < i")
      case True
      with Suc show ?thesis by simp
    next
      case False
      then have il: "i \<le> length s" by simp
      have step: "replace_loop r s n (Suc i) = replace_loop r s m' (Suc i)"
        using Suc.prems Suc il by (intro Suc.IH) simp_all
      show ?thesis
      proof (cases "ends r s i")
        case Nil
        with False Suc step show ?thesis by simp
      next
        case (Cons e es)
        show ?thesis
        proof (cases "i < e")
          case True
          from Cons have "e \<in> set (ends r s i)" by simp
          from ends_bounds [OF il this] have "e \<le> length s" by simp
          with True Suc.prems Suc have "replace_loop r s n e = replace_loop r s m' e"
            by (intro Suc.IH) simp_all
          with False Suc Cons True show ?thesis by simp
        next
          case no: False
          with False Suc Cons step show ?thesis by simp
        qed
      qed
    qed
  qed
qed

lemma replace_steps_enough:
  "length s < n \<Longrightarrow> replace_loop r s n 0 = replace_all r s"
  unfolding replace_all_def by (rule replace_loop_fuel) simp_all

lemma regex_test_iff: "regex_test r s \<longleftrightarrow> (\<exists>i\<le>length s. ends r s i \<noteq> [])"
  unfolding regex_test_def list_ex_iff
  by (auto simp del: upt_Suc simp: less_Suc_eq_le)



section \<open>The fragments and the patterns built from them\<close>

lemmas parser_defs = step_normal_def push_term_def quantifier_def close_group_def
  next_alternative_def step_class_def class_atom_def close_class_def supported_escape_def
  is_alnum_def is_letter_def is_digit_def in_range_def bslash_def


lemma comment_patterns:
  "compile False (''(?<!:)'' @ [bslash] @ ''/'' @ [bslash] @ ''/.*'') = Inr RE_LINE_COMMENT"
  "compile True ([bslash] @ ''/'' @ [bslash] @ ''*.*?'' @ [bslash] @ ''*'' @ [bslash] @ ''/'')
     = Inr RE_BLOCK_COMMENT"
  by code_simp+

lemma run_RE_BEFORE:
  "run False RE_BEFORE start = Inr (Normal Quantified, [Frame Top [] (rev BEFORE_terms)])"
  by code_simp

lemma run_RE_ALIAS_DOT:
  "run False RE_ALIAS_DOT start
     = Inr (Normal Quantified, [Frame Top [] (rev (VAR_CHAR_END_terms @ DOT_terms))])"
  by code_simp

lemma run_spec_IDENT_DOT:
  "run False (spec_IDENT @ RE_DOT) start
     = Inr (Normal Quantified, [Frame Top [] (rev (IDENT_terms @ DOT_terms))])"
  by code_simp

lemma run_RE_AFTER:
  "run False RE_AFTER (Normal q, Frame k a t # rest)
     = Inr (Normal Atom, Frame k a (rev AFTER_terms @ t) # rest)"
  unfolding RE_AFTER_def AFTER_terms_def ws_star_def chars_def
  by (simp add: parser_defs)

lemma run_RE_RHS_AFTER:
  "run False RE_RHS_AFTER (Normal q, Frame k a t # rest)
     = Inr (Normal Atom, Frame k a (rev RHS_AFTER_terms @ t) # rest)"
  unfolding RE_RHS_AFTER_def RHS_AFTER_terms_def RE_VAR_CHAR_START_def VAR_CHAR_START_tree_def
    ws_star_def chars_def
  by (simp add: parser_defs)

lemma compile_in_context:
  assumes b: "compile False b = Inr B"
    and pre: "run False pre start = Inr (Normal q, [Frame Top [] (rev P)])"
    and post: "\<And>q k a t rest. run False post (Normal q, Frame k a t # rest)
                 = Inr (Normal Atom, Frame k a (rev Q @ t) # rest)"
  shows "RegExp_new (pre @ ''(?:'' @ b @ '')'' @ post) = Inr (seq_of (P @ [RGroup B] @ Q))"
proof -
  define g where "g = ''(?:'' @ b @ '')''"
  have g: "run False g (Normal q, [Frame Top [] (rev P)])
             = Inr (Normal Atom, [Frame Top [] (RGroup B # rev P)])"
    unfolding g_def by (rule run_group [OF b])
  have "run False (pre @ g @ post) start
      = Inr (Normal Atom, [Frame Top [] (rev Q @ RGroup B # rev P)])"
    by (simp only: run_append [of False pre] run_append [of False g] pre sum.case g post)
  moreover have "pre @ ''(?:'' @ b @ '')'' @ post = pre @ g @ post"
    by (simp add: g_def)
  moreover have "finish (Normal Atom, [Frame Top [] (rev Q @ RGroup B # rev P)])
                   = Inr (seq_of (P @ [RGroup B] @ Q))"
    by simp
  ultimately show ?thesis
    by (simp only: RegExp_new_def compile_def sum.case)
qed

lemma compile_patterns:
  assumes "RegExp_new b = Inr B"
  shows "RegExp_new (any_text b) = Inr (any_tree B)"
    and "RegExp_new (rhs_text b) = Inr (rhs_tree B)"
    and "RegExp_new (dot_text b) = Inr (dot_tree B)"
    and "RegExp_new (spec_dot_text b) = Inr (spec_dot_tree B)"
proof -
  from assms have b: "compile False b = Inr B" by (simp add: RegExp_new_def)
  show "RegExp_new (any_text b) = Inr (any_tree B)"
    unfolding any_text_def any_tree_def
    by (rule compile_in_context [OF b run_RE_BEFORE run_RE_AFTER])
  show "RegExp_new (rhs_text b) = Inr (rhs_tree B)"
    unfolding rhs_text_def rhs_tree_def
    by (rule compile_in_context [OF b run_RE_BEFORE run_RE_RHS_AFTER])
  have "dot_tree B = seq_of ((VAR_CHAR_END_terms @ DOT_terms) @ [RGroup B] @ AFTER_terms)"
    by (simp add: dot_tree_def)
  then show "RegExp_new (dot_text b) = Inr (dot_tree B)"
    using compile_in_context [OF b run_RE_ALIAS_DOT run_RE_AFTER]
    by (simp only: dot_text_def)
  have "spec_dot_text b = (spec_IDENT @ RE_DOT) @ ''(?:'' @ b @ '')'' @ RE_AFTER"
    by (simp add: spec_dot_text_def)
  moreover have "spec_dot_tree B = seq_of ((IDENT_terms @ DOT_terms) @ [RGroup B] @ AFTER_terms)"
    by (simp add: spec_dot_tree_def)
  ultimately show "RegExp_new (spec_dot_text b) = Inr (spec_dot_tree B)"
    using compile_in_context [OF b run_spec_IDENT_DOT run_RE_AFTER] by (simp only:)
qed

lemma ends_seq_of_Cons:
  "set (ends (seq_of (t # ts)) s i) = (\<Union>j\<in>set (ends t s i). set (ends (seq_of ts) s j))"
  by (cases ts) simp_all

lemma ends_seq_of_append:
  "set (ends (seq_of (xs @ ys)) s i)
     = (\<Union>j\<in>set (ends (seq_of xs) s i). set (ends (seq_of ys) s j))"
proof (induction xs arbitrary: i)
  case Nil
  then show ?case by simp
next
  case (Cons x xs)
  have "set (ends (seq_of ((x # xs) @ ys)) s i)
        = (\<Union>j\<in>set (ends x s i). set (ends (seq_of (xs @ ys)) s j))"
    by (simp only: append_Cons ends_seq_of_Cons)
  also have "\<dots> = (\<Union>j\<in>set (ends x s i). \<Union>k\<in>set (ends (seq_of xs) s j). set (ends (seq_of ys) s k))"
    by (simp only: Cons.IH)
  also have "\<dots> = (\<Union>k\<in>(\<Union>j\<in>set (ends x s i). set (ends (seq_of xs) s j)). set (ends (seq_of ys) s k))"
    by blast
  also have "\<dots> = (\<Union>k\<in>set (ends (seq_of (x # xs)) s i). set (ends (seq_of ys) s k))"
    by (simp only: ends_seq_of_Cons)
  finally show ?case .
qed

lemma rex_ex_swap: "(\<exists>k. \<exists>j\<in>A. P j k) \<longleftrightarrow> (\<exists>j\<in>A. \<exists>k. P j k)"
  by blast

lemma ends_seq_of_append_nonempty:
  "ends (seq_of (xs @ ys)) s i \<noteq> [] \<longleftrightarrow>
     (\<exists>j\<in>set (ends (seq_of xs) s i). ends (seq_of ys) s j \<noteq> [])"
proof -
  have "ends (seq_of (xs @ ys)) s i \<noteq> [] \<longleftrightarrow> (\<exists>k. k \<in> set (ends (seq_of (xs @ ys)) s i))"
    by (simp add: ex_in_conv)
  also have "\<dots> \<longleftrightarrow> (\<exists>k. \<exists>j\<in>set (ends (seq_of xs) s i). k \<in> set (ends (seq_of ys) s j))"
    by (simp only: ends_seq_of_append UN_iff)
  also have "\<dots> \<longleftrightarrow> (\<exists>j\<in>set (ends (seq_of xs) s i). \<exists>k. k \<in> set (ends (seq_of ys) s j))"
    by (rule rex_ex_swap)
  also have "\<dots> \<longleftrightarrow> (\<exists>j\<in>set (ends (seq_of xs) s i). ends (seq_of ys) s j \<noteq> [])"
    by (simp add: ex_in_conv)
  finally show ?thesis .
qed

lemma regex_test_seq_of:
  "regex_test (seq_of (xs @ ys)) s \<longleftrightarrow>
     (\<exists>j. (\<exists>i\<le>length s. j \<in> set (ends (seq_of xs) s i)) \<and> ends (seq_of ys) s j \<noteq> [])"
proof
  assume "regex_test (seq_of (xs @ ys)) s"
  then obtain i where i: "i \<le> length s" and m: "ends (seq_of (xs @ ys)) s i \<noteq> []"
    unfolding regex_test_iff by blast
  from m obtain j where "j \<in> set (ends (seq_of xs) s i)" "ends (seq_of ys) s j \<noteq> []"
    unfolding ends_seq_of_append_nonempty by blast
  with i show "\<exists>j. (\<exists>i\<le>length s. j \<in> set (ends (seq_of xs) s i)) \<and> ends (seq_of ys) s j \<noteq> []"
    by blast
next
  assume "\<exists>j. (\<exists>i\<le>length s. j \<in> set (ends (seq_of xs) s i)) \<and> ends (seq_of ys) s j \<noteq> []"
  then obtain j i where i: "i \<le> length s" and j: "j \<in> set (ends (seq_of xs) s i)"
    and e: "ends (seq_of ys) s j \<noteq> []" by blast
  from j e have "ends (seq_of (xs @ ys)) s i \<noteq> []"
    unfolding ends_seq_of_append_nonempty by blast
  with i show "regex_test (seq_of (xs @ ys)) s"
    unfolding regex_test_iff by blast
qed



lemma class_star_ends:
  "i \<le> length s \<Longrightarrow>
   j \<in> set (star_ends (ends (RCls items) s) n i) \<longleftrightarrow>
     i \<le> j \<and> j \<le> i + n \<and> j \<le> length s \<and> (\<forall>k. i \<le> k \<and> k < j \<longrightarrow> in_class items (s ! k))"
proof (induction n arbitrary: i)
  case 0
  then show ?case by auto
next
  case (Suc n)
  show ?case
  proof (cases "i < length s \<and> in_class items (s ! i)")
    case True
    then have f: "filter (\<lambda>j. i < j) (ends (RCls items) s i) = [Suc i]"
      by (simp add: in_class_def)
    from True have "Suc i \<le> length s" by simp
    note IH = Suc.IH [OF this]
    have "j \<in> set (star_ends (ends (RCls items) s) (Suc n) i) \<longleftrightarrow>
          j = i \<or> j \<in> set (star_ends (ends (RCls items) s) n (Suc i))"
      unfolding star_ends.simps f by auto
    also have "\<dots> \<longleftrightarrow> j = i \<or> (Suc i \<le> j \<and> j \<le> Suc i + n \<and> j \<le> length s
                 \<and> (\<forall>k. Suc i \<le> k \<and> k < j \<longrightarrow> in_class items (s ! k)))"
      unfolding IH ..
    also have "\<dots> \<longleftrightarrow> i \<le> j \<and> j \<le> i + Suc n \<and> j \<le> length s
                 \<and> (\<forall>k. i \<le> k \<and> k < j \<longrightarrow> in_class items (s ! k))"
    proof
      assume a: "j = i \<or> (Suc i \<le> j \<and> j \<le> Suc i + n \<and> j \<le> length s
                 \<and> (\<forall>k. Suc i \<le> k \<and> k < j \<longrightarrow> in_class items (s ! k)))"
      show "i \<le> j \<and> j \<le> i + Suc n \<and> j \<le> length s
                 \<and> (\<forall>k. i \<le> k \<and> k < j \<longrightarrow> in_class items (s ! k))"
      proof (cases "j = i")
        case True
        with Suc.prems show ?thesis by auto
      next
        case False
        with a have b: "Suc i \<le> j" "j \<le> Suc i + n" "j \<le> length s"
          and c: "\<forall>k. Suc i \<le> k \<and> k < j \<longrightarrow> in_class items (s ! k)" by simp_all
        have "in_class items (s ! k)" if "i \<le> k \<and> k < j" for k
        proof (cases "k = i")
          case True
          with \<open>i < length s \<and> in_class items (s ! i)\<close> show ?thesis by simp
        next
          case False
          with that c show ?thesis by simp
        qed
        with b show ?thesis by simp
      qed
    next
      assume a: "i \<le> j \<and> j \<le> i + Suc n \<and> j \<le> length s
                 \<and> (\<forall>k. i \<le> k \<and> k < j \<longrightarrow> in_class items (s ! k))"
      then show "j = i \<or> (Suc i \<le> j \<and> j \<le> Suc i + n \<and> j \<le> length s
                 \<and> (\<forall>k. Suc i \<le> k \<and> k < j \<longrightarrow> in_class items (s ! k)))"
        by (cases "j = i") simp_all
    qed
    finally show ?thesis .
  next
    case False
    then have f: "filter (\<lambda>j. i < j) (ends (RCls items) s i) = []"
      by (auto simp: in_class_def)
    have "j \<in> set (star_ends (ends (RCls items) s) (Suc n) i) \<longleftrightarrow> j = i"
      unfolding star_ends.simps f by simp
    also have "\<dots> \<longleftrightarrow> i \<le> j \<and> j \<le> i + Suc n \<and> j \<le> length s
                 \<and> (\<forall>k. i \<le> k \<and> k < j \<longrightarrow> in_class items (s ! k))"
    proof
      assume "j = i"
      with Suc.prems show "i \<le> j \<and> j \<le> i + Suc n \<and> j \<le> length s
                 \<and> (\<forall>k. i \<le> k \<and> k < j \<longrightarrow> in_class items (s ! k))" by auto
    next
      assume a: "i \<le> j \<and> j \<le> i + Suc n \<and> j \<le> length s
                 \<and> (\<forall>k. i \<le> k \<and> k < j \<longrightarrow> in_class items (s ! k))"
      show "j = i"
      proof (rule ccontr)
        assume "j \<noteq> i"
        with a have "i < j" by simp
        with a have "i < length s" "in_class items (s ! i)" by simp_all
        with False show False by simp
      qed
    qed
    finally show ?thesis .
  qed
qed

lemma start_then_class_ends:
  assumes "i \<le> length s"
  shows "j \<in> set (ends (RSeq VAR_CHAR_START_tree (RStar (RCls items))) s i) \<longleftrightarrow>
     i < length s \<and> in_class [CRange CHR ''A'' CHR ''Z'', CRange CHR ''a'' CHR ''z'', CChar CHR ''_'',
           CChar CHR ''$''] (s ! i)
     \<and> i < j \<and> j \<le> length s \<and> (\<forall>k. i < k \<and> k < j \<longrightarrow> in_class items (s ! k))"
proof (cases "i < length s \<and> in_class [CRange CHR ''A'' CHR ''Z'', CRange CHR ''a'' CHR ''z'', CChar CHR ''_'',
           CChar CHR ''$''] (s ! i)")
  case True
  then have e: "ends VAR_CHAR_START_tree s i = [Suc i]"
    by (simp add: VAR_CHAR_START_tree_def in_class_def)
  from True have le: "Suc i \<le> length s" by simp
  have "j \<in> set (ends (RSeq VAR_CHAR_START_tree (RStar (RCls items))) s i) \<longleftrightarrow>
        j \<in> set (star_ends (ends (RCls items) s) (length s - Suc i) (Suc i))"
    by (simp only: ends.simps e) simp
  also have "\<dots> \<longleftrightarrow> Suc i \<le> j \<and> j \<le> Suc i + (length s - Suc i) \<and> j \<le> length s
       \<and> (\<forall>k. Suc i \<le> k \<and> k < j \<longrightarrow> in_class items (s ! k))"
    by (rule class_star_ends [OF le])
  finally show ?thesis using True by (auto simp: Suc_le_eq)
next
  case False
  then have "ends VAR_CHAR_START_tree s i = []"
    by (auto simp: VAR_CHAR_START_tree_def in_class_def)
  then have "ends (RSeq VAR_CHAR_START_tree (RStar (RCls items))) s i = []"
    by (simp only: ends.simps) simp
  with False show ?thesis by auto
qed

lemma last_start_char:
  "i < j \<Longrightarrow> S (s ! i) \<Longrightarrow> (\<forall>k. i < k \<and> k < j \<longrightarrow> S (s ! k) \<or> D (s ! k)) \<Longrightarrow>
   \<exists>i'. i \<le> i' \<and> i' < j \<and> S (s ! i') \<and> (\<forall>k. i' < k \<and> k < j \<longrightarrow> D (s ! k))"
proof (induction j)
  case 0
  then show ?case by simp
next
  case (Suc j)
  show ?case
  proof (cases "i = j")
    case True
    with Suc.prems(2) have "i \<le> i \<and> i < Suc j \<and> S (s ! i) \<and> (\<forall>k. i < k \<and> k < Suc j \<longrightarrow> D (s ! k))"
      by auto
    then show ?thesis ..
  next
    case False
    with Suc.prems(1) have ij: "i < j" by simp
    from Suc.prems(3) have "\<forall>k. i < k \<and> k < j \<longrightarrow> S (s ! k) \<or> D (s ! k)" by simp
    from Suc.IH [OF ij Suc.prems(2) this] obtain i' where
      i': "i \<le> i'" "i' < j" "S (s ! i')" "\<forall>k. i' < k \<and> k < j \<longrightarrow> D (s ! k)" by blast
    from Suc.prems(3) ij have sd: "S (s ! j) \<or> D (s ! j)" by simp
    show ?thesis
    proof (cases "S (s ! j)")
      case True
      with ij have "i \<le> j \<and> j < Suc j \<and> S (s ! j) \<and> (\<forall>k. j < k \<and> k < Suc j \<longrightarrow> D (s ! k))"
        by auto
      then show ?thesis ..
    next
      case False
      with sd have "D (s ! j)" by simp
      with i' have "i \<le> i' \<and> i' < Suc j \<and> S (s ! i') \<and> (\<forall>k. i' < k \<and> k < Suc j \<longrightarrow> D (s ! k))"
        by (auto simp: less_Suc_eq)
      then show ?thesis ..
    qed
  qed
qed

lemma in_class_append: "in_class (xs @ ys) c \<longleftrightarrow> in_class xs c \<or> in_class ys c"
  by (auto simp: in_class_def list_ex_iff)

lemma alias_ends_same:
  "(\<exists>i\<le>length s. j \<in> set (ends (seq_of VAR_CHAR_END_terms) s i)) \<longleftrightarrow>
   (\<exists>i\<le>length s. j \<in> set (ends (seq_of IDENT_terms) s i))"
proof -
  let ?S = "[CRange CHR ''A'' CHR ''Z'', CRange CHR ''a'' CHR ''z'', CChar CHR ''_'', CChar CHR ''$'']"
  let ?D = "[CRange CHR ''0'' CHR ''9'']"
  have id: "seq_of IDENT_terms = RSeq VAR_CHAR_START_tree (RStar (RCls (?S @ ?D)))"
    by (simp add: IDENT_terms_def)
  have en: "seq_of VAR_CHAR_END_terms = RSeq VAR_CHAR_START_tree (RStar (RCls ?D))"
    by (simp add: VAR_CHAR_END_terms_def)
  have code: "j \<in> set (ends (seq_of VAR_CHAR_END_terms) s i) \<longleftrightarrow>
      i < length s \<and> in_class ?S (s ! i) \<and> i < j \<and> j \<le> length s
      \<and> (\<forall>k. i < k \<and> k < j \<longrightarrow> in_class ?D (s ! k))" if "i \<le> length s" for i
    unfolding en by (rule start_then_class_ends [OF that])
  have spec: "j \<in> set (ends (seq_of IDENT_terms) s i) \<longleftrightarrow>
      i < length s \<and> in_class ?S (s ! i) \<and> i < j \<and> j \<le> length s
      \<and> (\<forall>k. i < k \<and> k < j \<longrightarrow> in_class ?S (s ! k) \<or> in_class ?D (s ! k))" if "i \<le> length s" for i
    unfolding id in_class_append [symmetric] by (rule start_then_class_ends [OF that])
  show ?thesis
  proof
    assume "\<exists>i\<le>length s. j \<in> set (ends (seq_of VAR_CHAR_END_terms) s i)"
    then obtain i where i: "i \<le> length s" and m: "j \<in> set (ends (seq_of VAR_CHAR_END_terms) s i)"
      by blast
    from m code [OF i] spec [OF i] have "j \<in> set (ends (seq_of IDENT_terms) s i)" by blast
    with i show "\<exists>i\<le>length s. j \<in> set (ends (seq_of IDENT_terms) s i)" by blast
  next
    assume "\<exists>i\<le>length s. j \<in> set (ends (seq_of IDENT_terms) s i)"
    then obtain i where i: "i \<le> length s" and m: "j \<in> set (ends (seq_of IDENT_terms) s i)" by blast
    from m spec [OF i] have a: "in_class ?S (s ! i)" "i < j" "j \<le> length s"
      and b: "\<forall>k. i < k \<and> k < j \<longrightarrow> in_class ?S (s ! k) \<or> in_class ?D (s ! k)"
      by blast+
    from last_start_char [of i j "in_class ?S" s "in_class ?D", OF a(2) a(1) b]
    obtain i' where i': "i \<le> i'" "i' < j" "in_class ?S (s ! i')"
      "\<forall>k. i' < k \<and> k < j \<longrightarrow> in_class ?D (s ! k)" by blast
    from i' a have le: "i' \<le> length s" and lt: "i' < length s" by simp_all
    from i' a lt code [OF le] have "j \<in> set (ends (seq_of VAR_CHAR_END_terms) s i')" by blast
    with le show "\<exists>i\<le>length s. j \<in> set (ends (seq_of VAR_CHAR_END_terms) s i)" by blast
  qed
qed

lemma dot_tree_same_as_spec: "regex_test (dot_tree B) s \<longleftrightarrow> regex_test (spec_dot_tree B) s"
  unfolding dot_tree_def spec_dot_tree_def regex_test_seq_of alias_ends_same ..

section \<open>findMatches\<close>

lemma results_ok_Nil: "results_ok test srcs []"
  by (simp add: results_ok_def)

lemma testMatch_ok:
  assumes "results_ok test srcs cache" and "testMatch test srcs p cache = (r, cache')"
  shows "r = any_match test srcs p \<and> results_ok test srcs cache'"
proof (cases "map_of cache p")
  case None
  with assms(2) have r: "r = any_match test srcs p" and c: "cache' = cache @ [(p, r)]"
    by (auto simp: testMatch_def any_match_def list_ex_iff Let_def)
  have "results_ok test srcs cache'"
    unfolding results_ok_def c using assms(1) r
    by (auto simp: results_ok_def map_add_def split: option.splits if_splits)
  with r show ?thesis by simp
next
  case (Some b)
  with assms show ?thesis by (auto simp: testMatch_def results_ok_def)
qed

lemma every_match_ok:
  "results_ok test srcs cache \<Longrightarrow> every_match test srcs ps cache = (r, cache') \<Longrightarrow>
   r = (\<forall>p\<in>set ps. any_match test srcs p) \<and> results_ok test srcs cache'"
proof (induction ps arbitrary: cache)
  case Nil
  then show ?case by simp
next
  case (Cons p ps)
  obtain r1 c1 where t: "testMatch test srcs p cache = (r1, c1)" by (cases "testMatch test srcs p cache")
  from testMatch_ok [OF Cons.prems(1) t] have r1: "r1 = any_match test srcs p" and ok1: "results_ok test srcs c1" by simp_all
  show ?case
  proof (cases r1)
    case True
    with Cons.prems(2) t have "every_match test srcs ps c1 = (r, cache')" by simp
    from Cons.IH [OF ok1 this] r1 True show ?thesis by simp
  next
    case False
    with Cons.prems(2) t have "r = False" "cache' = c1" by simp_all
    with r1 False ok1 show ?thesis by simp
  qed
qed

lemma some_condition_ok:
  "results_ok test srcs cache \<Longrightarrow> some_condition test srcs cps cache = (r, cache') \<Longrightarrow>
   r = condition_holds test srcs cps \<and> results_ok test srcs cache'"
proof (induction cps arbitrary: cache)
  case Nil
  then show ?case by (simp add: condition_holds_def)
next
  case (Cons ps cps)
  obtain r1 c1 where t: "every_match test srcs ps cache = (r1, c1)" by (cases "every_match test srcs ps cache")
  from every_match_ok [OF Cons.prems(1) t] have r1: "r1 = (\<forall>p\<in>set ps. any_match test srcs p)" and ok1: "results_ok test srcs c1" by simp_all
  show ?case
  proof (cases r1)
    case True
    with Cons.prems(2) t have "r = True" "cache' = c1" by simp_all
    with r1 True ok1 show ?thesis by (auto simp: condition_holds_def any_match_def)
  next
    case False
    with Cons.prems(2) t have "some_condition test srcs cps c1 = (r, cache')" by simp
    from Cons.IH [OF ok1 this] r1 False show ?thesis by (auto simp: condition_holds_def any_match_def)
  qed
qed

lemma set_set_add: "set (set_add x xs) = insert x (set xs)"
  by (auto simp: set_add_def)

lemma findMatches_loop_set:
  "results_ok test srcs cache \<Longrightarrow>
   set (findMatches_loop test srcs entries matched cache) =
     set matched \<union> {q. \<exists>cps. (q, cps) \<in> set entries \<and> condition_holds test srcs cps}"
proof (induction entries arbitrary: matched cache)
  case Nil
  then show ?case by simp
next
  case (Cons e entries)
  obtain q cps where e: "e = (q, cps)" by (cases e)
  show ?case
  proof (cases "q \<in> set matched")
    case True
    with Cons e show ?thesis by auto
  next
    case False
    obtain r c1 where t: "some_condition test srcs cps cache = (r, c1)" by (cases "some_condition test srcs cps cache")
    from some_condition_ok [OF Cons.prems t] have r: "r = condition_holds test srcs cps" and ok1: "results_ok test srcs c1" by simp_all
    have "set (findMatches_loop test srcs (e # entries) matched cache) =
          set (findMatches_loop test srcs entries (if r then set_add q matched else matched) c1)"
      using False e t by simp
    also have "\<dots> = set (if r then set_add q matched else matched) \<union> {q. \<exists>cps. (q, cps) \<in> set entries \<and> condition_holds test srcs cps}"
      by (rule Cons.IH [OF ok1])
    finally show ?thesis using r e False by (auto simp: set_set_add)
  qed
qed

text \<open>
  Claim C1. After \<^verbatim>\<open>findMatches()\<close> a query is in the matched set if and only if it was
  there before the call, or one of the conditions of its compiled query has all its patterns
  match some stored source text; \<open>qps\<close> is what the compiler's map holds at the call.
  \<^verbatim>\<open>addSource\<close> stores the raw text and its comment-stripped copy, and \<^verbatim>\<open>findMatches\<close>
  leaves the stored texts as they are. This holds for every pattern engine \<open>test\<close>.
\<close>

theorem findMatches_matched_iff:
  "(q \<in> set (matchedQueries (findMatches test qps m)) \<longleftrightarrow>
      q \<in> set (matchedQueries m) \<or>
      (\<exists>cps. (q, cps) \<in> set qps \<and>
         (\<exists>cond\<in>set cps. \<forall>p\<in>set cond. \<exists>s\<in>set (sourceTexts m). test p s)))
   \<and> set (sourceTexts (addSource t m)) = set (sourceTexts m) \<union> {t, strip_comments t}
   \<and> sourceTexts (findMatches test qps m) = sourceTexts m"
  using findMatches_loop_set [OF results_ok_Nil, of test "sourceTexts m" qps "matchedQueries m"]
  by (auto simp: findMatches_def addSource_def set_set_add condition_holds_def)

theorem findMatches_matched_iff_witness:
  "fst (addQuery RegExp_new ''ns.api'' new_QueryCompiler) = None
   \<and> ''ns.api'' \<notin> set (matchedQueries (addSource ''ns?.api'' new_QueryMatcher))
   \<and> ''ns.api'' \<in> set (matchedQueries (findMatches RegExp_test
        (qc_queriesAndPatterns (snd (addQuery RegExp_new ''ns.api'' new_QueryCompiler)))
        (addSource ''ns?.api'' new_QueryMatcher)))"
proof -
  define m where "m = addSource ''ns?.api'' new_QueryMatcher"
  define qps where
    "qps = qc_queriesAndPatterns (snd (addQuery RegExp_new ''ns.api'' new_QueryCompiler))"
  define cps where "cps = the (map_of qps ''ns.api'')"
  have 0: "fst (addQuery RegExp_new ''ns.api'' new_QueryCompiler) = None"
    by code_simp
  have 1: "(''ns.api'', cps) \<in> set qps"
    unfolding cps_def qps_def by code_simp
  have 2: "list_ex (\<lambda>cond. list_all (\<lambda>p. list_ex (RegExp_test p) (sourceTexts m)) cond) cps"
    unfolding cps_def qps_def m_def by code_simp
  have 3: "''ns.api'' \<notin> set (matchedQueries m)"
    unfolding m_def by code_simp
  from 2 have "\<exists>cond\<in>set cps. \<forall>p\<in>set cond. \<exists>s\<in>set (sourceTexts m). RegExp_test p s"
    by (simp add: list_ex_iff list_all_iff)
  with 1 have "''ns.api'' \<in> set (matchedQueries (findMatches RegExp_test qps m))"
    using findMatches_matched_iff [of "''ns.api''" RegExp_test qps m] by blast
  with 0 3 show ?thesis unfolding m_def qps_def by simp
qed

lemma matchedQueries_step_mono:
  "set (matchedQueries (snd st)) \<subseteq> set (matchedQueries (snd (system_step mk test c st)))"
proof (cases st)
  case (Pair qc m)
  show ?thesis
  proof (cases c)
    case (AddQuery q)
    with Pair show ?thesis by simp
  next
    case (AddSource t)
    with Pair show ?thesis by (simp add: addSource_def)
  next
    case FindMatches
    with Pair show ?thesis
      using findMatches_loop_set [OF results_ok_Nil, of test "sourceTexts m"
          "qc_queriesAndPatterns qc" "matchedQueries m"]
      by (auto simp: findMatches_def)
  qed
qed

lemma run_system_append:
  "run_system mk test (xs @ ys) st = run_system mk test ys (run_system mk test xs st)"
  by (induction xs arbitrary: st) simp_all

lemma matchedQueries_run_mono:
  "set (matchedQueries (snd st)) \<subseteq> set (matchedQueries (snd (run_system mk test cs st)))"
proof (induction cs arbitrary: st)
  case Nil
  then show ?case by simp
next
  case (Cons c cs)
  have "set (matchedQueries (snd st)) \<subseteq> set (matchedQueries (snd (system_step mk test c st)))"
    by (rule matchedQueries_step_mono)
  also have "\<dots> \<subseteq> set (matchedQueries (snd (run_system mk test cs (system_step mk test c st))))"
    by (rule Cons.IH)
  finally show ?case by simp
qed

text \<open>
  Claim C3. The matched set never shrinks: no call of \<^verbatim>\<open>addQuery\<close>, \<^verbatim>\<open>addSource\<close> or
  \<^verbatim>\<open>findMatches\<close> removes a query, whatever the compiler's map holds at the call, and the
  set after a prefix of a sequence of calls is contained in the set after the whole
  sequence.
\<close>

theorem matchedQueries_monotone:
  "set (matchedQueries m) \<subseteq> set (matchedQueries (addSource t m))
   \<and> set (matchedQueries m) \<subseteq> set (matchedQueries (findMatches test qps m))
   \<and> set (matchedQueries (snd st)) \<subseteq> set (matchedQueries (snd (system_step mk test c st)))
   \<and> set (matchedQueries (snd (run_system mk test xs st)))
       \<subseteq> set (matchedQueries (snd (run_system mk test (xs @ ys) st)))"
proof (intro conjI)
  show "set (matchedQueries m) \<subseteq> set (matchedQueries (addSource t m))"
    by (simp add: addSource_def)
  show "set (matchedQueries m) \<subseteq> set (matchedQueries (findMatches test qps m))"
    using findMatches_loop_set [OF results_ok_Nil, of test "sourceTexts m" qps "matchedQueries m"]
    by (auto simp: findMatches_def)
  show "set (matchedQueries (snd st)) \<subseteq> set (matchedQueries (snd (system_step mk test c st)))"
    by (rule matchedQueries_step_mono)
  show "set (matchedQueries (snd (run_system mk test xs st)))
       \<subseteq> set (matchedQueries (snd (run_system mk test (xs @ ys) st)))"
    unfolding run_system_append by (rule matchedQueries_run_mono)
qed

lemma set_add_idem: "x \<in> set xs \<Longrightarrow> set_add x xs = xs"
  by (simp add: set_add_def)

lemma addSource_twice: "addSource t (addSource t m) = addSource t m"
proof -
  let ?xs = "set_add (strip_comments t) (set_add t (sourceTexts m))"
  have a: "t \<in> set ?xs" by (simp add: set_set_add)
  have b: "strip_comments t \<in> set ?xs" by (simp add: set_set_add)
  have "set_add (strip_comments t) (set_add t ?xs) = ?xs"
    using a b by (simp add: set_add_idem)
  then show ?thesis by (simp add: addSource_def)
qed

lemma condition_holds_mono:
  "set srcs \<subseteq> set srcs' \<Longrightarrow> condition_holds test srcs cps \<Longrightarrow> condition_holds test srcs' cps"
  unfolding condition_holds_def by blast

lemma findMatches_sources_mono:
  assumes "set (sourceTexts m) \<subseteq> set (sourceTexts m')"
    and "matchedQueries m' = matchedQueries m"
  shows "set (getMatchedResults (findMatches test qps m))
           \<subseteq> set (getMatchedResults (findMatches test qps m'))"
  using assms condition_holds_mono [OF assms(1), of test]
  by (auto simp: getMatchedResults_def findMatches_def findMatches_loop_set [OF results_ok_Nil])

text \<open>
  Claim C4, as the program has it. Adding the same text twice leaves the matcher as adding
  it once does. For two texts with the same comment-stripped form, the shared stripped copy
  is stored once, so adding the second stores its raw text and nothing else; the raw text
  is searched too, so the results after adding both contain the results after adding
  either one alone.
\<close>

theorem addSource_dedup:
  "addSource t (addSource t m) = addSource t m
   \<and> (strip_comments a = strip_comments b \<longrightarrow>
        sourceTexts (addSource b (addSource a m)) = set_add b (sourceTexts (addSource a m))
        \<and> set (getMatchedResults (findMatches test qps (addSource a m)))
            \<subseteq> set (getMatchedResults (findMatches test qps (addSource b (addSource a m))))
        \<and> set (getMatchedResults (findMatches test qps (addSource b m)))
            \<subseteq> set (getMatchedResults (findMatches test qps (addSource b (addSource a m)))))"
proof (intro conjI impI)
  show "addSource t (addSource t m) = addSource t m" by (rule addSource_twice)
next
  assume eq: "strip_comments a = strip_comments b"
  have "strip_comments b \<in> set (set_add b (sourceTexts (addSource a m)))"
    using eq [symmetric] by (simp add: addSource_def set_set_add)
  then show "sourceTexts (addSource b (addSource a m)) = set_add b (sourceTexts (addSource a m))"
    by (simp add: addSource_def set_add_idem)
next
  show "set (getMatchedResults (findMatches test qps (addSource a m)))
          \<subseteq> set (getMatchedResults (findMatches test qps (addSource b (addSource a m))))"
    by (rule findMatches_sources_mono) (auto simp: addSource_def set_set_add)
next
  show "set (getMatchedResults (findMatches test qps (addSource b m)))
          \<subseteq> set (getMatchedResults (findMatches test qps (addSource b (addSource a m))))"
    by (rule findMatches_sources_mono) (auto simp: addSource_def set_set_add)
qed

theorem addSource_dedup_witness:
  "strip_comments ''//p'' = strip_comments ''//q''
   \<and> sourceTexts (addSource ''//q'' (addSource ''//p'' new_QueryMatcher))
     = [''//p'', [], ''//q'']"
proof -
  have h: "strip_comments ''//p'' = strip_comments ''//q''" by code_simp
  have s: "set_add ''//q'' (sourceTexts (addSource ''//p'' new_QueryMatcher))
           = [''//p'', [], ''//q'']" by code_simp
  from h s addSource_dedup [of "''//p''" new_QueryMatcher "''//p''" "''//q''" RegExp_test "[]"]
  show ?thesis by simp
qed

text \<open>
  The claim as written fails: the texts \<^verbatim>\<open>//p\<close> and \<^verbatim>\<open>//q\<close> both strip to the empty
  text, yet adding both matches both queries and adding one of them matches one.
\<close>

theorem addSource_stripped_equal_counterexample:
  "strip_comments ''//p'' = strip_comments ''//q''
   \<and> getMatchedResults (snd (run_system RegExp_new RegExp_test
        [AddQuery ''p'', AddQuery ''q'', AddSource ''//p'', AddSource ''//q'', FindMatches]
        (new_QueryCompiler, new_QueryMatcher))) = [''p'', ''q'']
   \<and> getMatchedResults (snd (run_system RegExp_new RegExp_test
        [AddQuery ''p'', AddQuery ''q'', AddSource ''//p'', FindMatches]
        (new_QueryCompiler, new_QueryMatcher))) = [''p'']
   \<and> getMatchedResults (snd (run_system RegExp_new RegExp_test
        [AddQuery ''p'', AddQuery ''q'', AddSource ''//q'', FindMatches]
        (new_QueryCompiler, new_QueryMatcher))) = [''q'']"
  by code_simp

section \<open>The conditions of a query\<close>
lemma regexps_ok_Nil: "regexps_ok []"
  by (simp add: regexps_ok_def)

lemma regexps_ok_snoc:
  assumes "regexps_ok cache"
  shows "regexps_ok (cache @ [(t, \<lparr>re_source = t, re_compiled = c\<rparr>)])"
  unfolding regexps_ok_def
proof (intro allI impI)
  fix k re
  assume m: "map_of (cache @ [(t, \<lparr>re_source = t, re_compiled = c\<rparr>)]) k = Some re"
  show "re_source re = k"
  proof (cases "map_of cache k")
    case None
    with m have "k = t \<and> re = \<lparr>re_source = t, re_compiled = c\<rparr>"
      by (simp add: map_add_def split: if_splits)
    then show ?thesis by simp
  next
    case (Some r)
    with m have "re = r" by (simp add: map_add_def)
    with Some assms show ?thesis by (simp add: regexps_ok_def)
  qed
qed

lemma newRegExp_cases:
  assumes "regexps_ok cache"
  obtains (made) re cache' where "newRegExp mk t cache = (Inr re, cache')"
      and "re_source re = t" and "regexps_ok cache'"
  | (thrown) e where "newRegExp mk t cache = (Inl e, cache)" and "mk t = Inl e"
proof (cases "map_of cache t")
  case (Some re)
  then have "newRegExp mk t cache = (Inr re, cache)" by (simp add: newRegExp_def)
  moreover from Some assms have "re_source re = t" by (simp add: regexps_ok_def)
  ultimately show ?thesis using assms by (rule made)
next
  case None
  show ?thesis
  proof (cases "mk t")
    case (Inl e)
    with None have "newRegExp mk t cache = (Inl e, cache)" by (simp add: newRegExp_def)
    then show ?thesis using Inl by (rule thrown)
  next
    case (Inr c)
    let ?re = "\<lparr>re_source = t, re_compiled = c\<rparr>"
    from None Inr have "newRegExp mk t cache = (Inr ?re, cache @ [(t, ?re)])"
      by (simp add: newRegExp_def)
    moreover have "re_source ?re = t" by simp
    moreover have "regexps_ok (cache @ [(t, ?re)])" using assms by (rule regexps_ok_snoc)
    ultimately show ?thesis by (rule made)
  qed
qed




















lemma RE_ALIAS_DOT_text: "RE_ALIAS_DOT = ''[A-Za-z_$][0-9]*'' @ RE_DOT"
  by (simp add: RE_ALIAS_DOT_def RE_VAR_CHAR_END_def RE_VAR_CHAR_START_def)

text \<open>
  Claim C8, as the program has it. The source text of the pattern that \<^verbatim>\<open>re_dot\<close> makes
  is \<open>RE_ALIAS_DOT\<close>, the body in a group, \<open>RE_AFTER\<close>; and \<open>RE_ALIAS_DOT\<close> is
  \<^verbatim>\<open>[A-Za-z_$][0-9]*\<close> followed by \<open>RE_DOT\<close>: a character that can start an identifier
  and digits after it, which is how every identifier ends. For a body that is a pattern
  on its own, parsed to \<open>B\<close>, this text and the text with the specification's \<open>IDENT\<close>,
  \<^verbatim>\<open>[A-Za-z_$][A-Za-z_$0-9]*\<close>, in that place are parsed to \<open>dot_tree B\<close> and
  \<open>spec_dot_tree B\<close>. The pattern is not anchored on the left, so the two match the
  same texts.
\<close>

theorem re_dot_source:
  assumes "regexps_ok cache"
  shows "(\<forall>re cache'. re_dot mk b cache = (Inr re, cache') \<longrightarrow>
            re_source re = RE_ALIAS_DOT @ ''(?:'' @ b @ '')'' @ RE_AFTER)
     \<and> RE_ALIAS_DOT = ''[A-Za-z_$][0-9]*'' @ RE_DOT
     \<and> spec_IDENT = ''[A-Za-z_$][A-Za-z_$0-9]*''
     \<and> (RegExp_new b = Inr B \<longrightarrow>
          RegExp_new (RE_ALIAS_DOT @ ''(?:'' @ b @ '')'' @ RE_AFTER) = Inr (dot_tree B)
          \<and> RegExp_new (spec_IDENT @ RE_DOT @ ''(?:'' @ b @ '')'' @ RE_AFTER) = Inr (spec_dot_tree B))
     \<and> (regex_test (dot_tree B) s \<longleftrightarrow> regex_test (spec_dot_tree B) s)"
proof (intro conjI allI impI)
  fix re cache'
  assume eq: "re_dot mk b cache = (Inr re, cache')"
  from assms show "re_source re = RE_ALIAS_DOT @ ''(?:'' @ b @ '')'' @ RE_AFTER"
  proof (cases rule: newRegExp_cases [of cache mk "dot_text b"])
    case (made r c)
    with eq show ?thesis by (simp add: re_dot_def dot_text_def)
  next
    case (thrown e)
    with eq show ?thesis by (simp add: re_dot_def)
  qed
next
  show "RE_ALIAS_DOT = ''[A-Za-z_$][0-9]*'' @ RE_DOT" by (rule RE_ALIAS_DOT_text)
next
  show "spec_IDENT = ''[A-Za-z_$][A-Za-z_$0-9]*''" by (rule spec_IDENT_def)
next
  assume "RegExp_new b = Inr B"
  from compile_patterns(3) [OF this]
  show "RegExp_new (RE_ALIAS_DOT @ ''(?:'' @ b @ '')'' @ RE_AFTER) = Inr (dot_tree B)"
    unfolding dot_text_def .
next
  assume "RegExp_new b = Inr B"
  from compile_patterns(4) [OF this]
  show "RegExp_new (spec_IDENT @ RE_DOT @ ''(?:'' @ b @ '')'' @ RE_AFTER) = Inr (spec_dot_tree B)"
    unfolding spec_dot_text_def .
next
  show "regex_test (dot_tree B) s \<longleftrightarrow> regex_test (spec_dot_tree B) s"
    by (rule dot_tree_same_as_spec)
qed

theorem re_dot_source_witness:
  "regexps_ok ([] :: regex regexp_cache)
   \<and> \<not> isl (fst (re_dot RegExp_new ''(?:api)'' []))
   \<and> re_source (projr (fst (re_dot RegExp_new ''(?:api)'' [])))
       = RE_ALIAS_DOT @ ''(?:(?:api))'' @ RE_AFTER
   \<and> RegExp_new ''(?:api)'' = Inr (RGroup (seq_of [RChr CHR ''a'', RChr CHR ''p'', RChr CHR ''i'']))
   \<and> RegExp_new (RE_ALIAS_DOT @ ''(?:(?:api))'' @ RE_AFTER)
       = Inr (dot_tree (RGroup (seq_of [RChr CHR ''a'', RChr CHR ''p'', RChr CHR ''i''])))"
proof -
  let ?B = "RGroup (seq_of [RChr CHR ''a'', RChr CHR ''p'', RChr CHR ''i''])"
  have ok: "\<not> isl (fst (re_dot RegExp_new ''(?:api)'' []))" by code_simp
  then obtain re cache' where eq: "re_dot RegExp_new ''(?:api)'' [] = (Inr re, cache')"
    by (cases "re_dot RegExp_new ''(?:api)'' []"; cases "fst (re_dot RegExp_new ''(?:api)'' [])")
       simp_all
  have b: "RegExp_new ''(?:api)'' = Inr ?B" by code_simp
  from re_dot_source [OF regexps_ok_Nil, of RegExp_new "''(?:api)''" ?B] eq b
  have "re_source re = RE_ALIAS_DOT @ ''(?:'' @ ''(?:api)'' @ '')'' @ RE_AFTER"
    and "RegExp_new (RE_ALIAS_DOT @ ''(?:'' @ ''(?:api)'' @ '')'' @ RE_AFTER) = Inr (dot_tree ?B)"
    by blast+
  with eq ok b regexps_ok_Nil show ?thesis by simp
qed

text \<open>
  With the identifier fragment as the claim writes it, \<^verbatim>\<open>[A-Za-z_$][A-Za-z_$0-9]*\<close>, the
  text is another one.
\<close>

theorem re_dot_source_counterexample:
  "\<not> isl (fst (re_dot RegExp_new ''(?:api)'' []))
   \<and> re_source (projr (fst (re_dot RegExp_new ''(?:api)'' [])))
       \<noteq> ''[A-Za-z_$][A-Za-z_$0-9]*'' @ RE_DOT @ ''(?:(?:api))'' @ RE_AFTER"
  by code_simp

section \<open>Matching\<close>

text \<open>
  Claim C9. For the query \<^verbatim>\<open>ns.api\<close>, a matcher given the text \<^verbatim>\<open>ns?.api\<close> reports the
  query, and a matcher given only \<^verbatim>\<open>ns??.api\<close> reports nothing: \<open>RE_DOT\<close> matches
  \<^verbatim>\<open>?.\<close> and does not match \<^verbatim>\<open>??.\<close>.
\<close>

theorem optional_chaining:
  "fst (addQuery RegExp_new ''ns.api'' new_QueryCompiler) = None
   \<and> getMatchedResults (snd (run_system RegExp_new RegExp_test
        [AddQuery ''ns.api'', AddSource ''ns?.api'', FindMatches]
        (new_QueryCompiler, new_QueryMatcher))) = [''ns.api'']
   \<and> getMatchedResults (snd (run_system RegExp_new RegExp_test
        [AddQuery ''ns.api'', AddSource ''ns??.api'', FindMatches]
        (new_QueryCompiler, new_QueryMatcher))) = []
   \<and> RegExp_new RE_DOT = Inr (seq_of DOT_terms)
   \<and> ends (seq_of DOT_terms) ''?.'' 0 = [2]
   \<and> ends (seq_of DOT_terms) ''??.'' 0 = []"
  by code_simp




section \<open>The worker pool\<close>

lemma getFreeWorker_count_ok:
  "count_ok p \<Longrightarrow> count_ok (snd (getFreeWorker p)) \<and> numThreads (snd (getFreeWorker p)) = numThreads p"
  by (auto simp: count_ok_def getFreeWorker_def split: list.splits)

lemma dispatch_count_ok:
  "count_ok p \<Longrightarrow> count_ok (dispatch w p) \<and> numThreads (dispatch w p) = numThreads p"
  by (auto simp: count_ok_def dispatch_def split: list.splits)

lemma runNextTask_count_ok:
  "count_ok p \<Longrightarrow> count_ok (runNextTask p) \<and> numThreads (runNextTask p) = numThreads p"
proof (induction p rule: runNextTask.induct)
  case (1 p)
  show ?case
  proof (cases "taskQueue p = []")
    case True
    with "1.prems" show ?thesis by (subst (1 2) runNextTask.simps) simp
  next
    case False
    obtain x p' where g: "getFreeWorker p = (x, p')" by (cases "getFreeWorker p")
    from getFreeWorker_count_ok [OF "1.prems"] g
    have ok': "count_ok p'" and n': "numThreads p' = numThreads p" by simp_all
    show ?thesis
    proof (cases x)
      case None
      with False g ok' n' show ?thesis by (subst (1 2) runNextTask.simps) simp
    next
      case (Some w)
      from dispatch_count_ok [OF ok', of w]
      have okd: "count_ok (dispatch w p')" and nd: "numThreads (dispatch w p') = numThreads p'" by simp_all
      from "1.IH" [OF False g [symmetric] Some okd] nd n'
      have "count_ok (runNextTask (dispatch w p')) \<and> numThreads (runNextTask (dispatch w p')) = numThreads p"
        by simp
      with False g Some show ?thesis by (subst (1 2) runNextTask.simps) simp
    qed
  qed
qed

lemma pool_step_count_ok:
  "count_ok p \<Longrightarrow> count_ok (pool_step e p) \<and> numThreads (pool_step e p) = numThreads p"
proof (cases e)
  case (Submit texts)
  assume ok: "count_ok p"
  let ?p = "p\<lparr>taskQueue := taskQueue p @ [(promisesMade p, texts)], promisesMade := Suc (promisesMade p)\<rparr>"
  from ok have "count_ok ?p" by (simp add: count_ok_def)
  from runNextTask_count_ok [OF this] Submit show ?thesis
    by (simp add: queryResultsForSourceTexts_def)
next
  case (Message w result)
  assume ok: "count_ok p"
  show ?thesis
  proof (cases "kTaskResolver p w")
    case None
    with ok Message show ?thesis by (simp add: on_message_def)
  next
    case (Some f)
    let ?p = "p\<lparr>promises := settle f (Fulfilled result) (promises p),
                 idleWorkers := idleWorkers p @ [w]\<rparr>"
    from ok have "count_ok ?p" by (simp add: count_ok_def)
    from runNextTask_count_ok [OF this] Message Some show ?thesis
      by (simp add: on_message_def)
  qed
next
  case (Error w err)
  assume "count_ok p"
  with Error show ?thesis by (simp add: count_ok_def on_error_def split: option.splits)
next
  case TerminateAll
  assume "count_ok p"
  with TerminateAll show ?thesis by (simp add: count_ok_def terminateAllWorkers_def)
qed

lemma run_pool_count_ok:
  "count_ok p \<Longrightarrow> count_ok (run_pool evs p) \<and> numThreads (run_pool evs p) = numThreads p"
proof (induction evs arbitrary: p)
  case Nil
  then show ?case by simp
next
  case (Cons e evs)
  from pool_step_count_ok [OF Cons.prems, of e]
  have ok: "count_ok (pool_step e p)" and n: "numThreads (pool_step e p) = numThreads p" by simp_all
  from Cons.IH [OF ok] n show ?case by simp
qed

text \<open>
  Claim C6, as the program has it. Whatever happens to a pool made for \<open>n\<close> threads (tasks
  submitted, worker messages and errors, termination), it has at most \<open>n\<close> workers when
  \<open>n\<close> is not negative, and no worker at all when it is. In any state of a pool,
  \<^verbatim>\<open>getFreeWorker\<close> returns the head of the idle queue when there is one, and it makes a
  new worker only when the idle queue is empty and the count is below \<open>numThreads\<close>.
\<close>

theorem worker_count_bounded:
  "int (length (workers (run_pool evs (new_WorkerPool qps n)))) \<le> max 0 n
   \<and> (0 \<le> n \<longrightarrow> int (length (workers (run_pool evs (new_WorkerPool qps n)))) \<le> n)
   \<and> numThreads (run_pool evs (new_WorkerPool qps n)) = n
   \<and> (idleWorkers p \<noteq> [] \<longrightarrow>
        getFreeWorker p = (Some (hd (idleWorkers p)), p\<lparr>idleWorkers := tl (idleWorkers p)\<rparr>))
   \<and> (workers (snd (getFreeWorker p)) \<noteq> workers p \<or> workersMade (snd (getFreeWorker p)) \<noteq> workersMade p \<longrightarrow>
        idleWorkers p = [] \<and> int (length (workers p)) < numThreads p)"
proof -
  have "count_ok (new_WorkerPool qps n)"
    by (simp add: count_ok_def new_WorkerPool_def)
  from run_pool_count_ok [OF this, of evs]
  have ok: "count_ok (run_pool evs (new_WorkerPool qps n))"
    and nt: "numThreads (run_pool evs (new_WorkerPool qps n)) = numThreads (new_WorkerPool qps n)"
    by simp_all
  have nn: "numThreads (new_WorkerPool qps n) = n" by (simp add: new_WorkerPool_def)
  from ok have "int (length (workers (run_pool evs (new_WorkerPool qps n))))
                  \<le> max 0 (numThreads (run_pool evs (new_WorkerPool qps n)))"
    by (simp only: count_ok_def)
  with nt nn have a: "int (length (workers (run_pool evs (new_WorkerPool qps n)))) \<le> max 0 n
     \<and> numThreads (run_pool evs (new_WorkerPool qps n)) = n"
    by (simp only: simp_thms)
  have a': "0 \<le> n \<longrightarrow> int (length (workers (run_pool evs (new_WorkerPool qps n)))) \<le> n"
  proof
    assume "0 \<le> n"
    then have "max 0 n = n" by (rule max_absorb2)
    with a show "int (length (workers (run_pool evs (new_WorkerPool qps n)))) \<le> n"
      by (simp only:)
  qed
  have b: "idleWorkers p \<noteq> [] \<longrightarrow>
          getFreeWorker p = (Some (hd (idleWorkers p)), p\<lparr>idleWorkers := tl (idleWorkers p)\<rparr>)"
    by (cases "idleWorkers p") (simp_all add: getFreeWorker_def)
  have c: "workers (snd (getFreeWorker p)) \<noteq> workers p \<or> workersMade (snd (getFreeWorker p)) \<noteq> workersMade p \<longrightarrow>
          idleWorkers p = [] \<and> int (length (workers p)) < numThreads p"
    by (cases "idleWorkers p") (auto simp: getFreeWorker_def split: if_splits)
  from a a' b c show ?thesis by blast
qed

theorem worker_count_bounded_witness:
  "(0::int) \<le> 1
   \<and> int (length (workers (run_pool [Submit [''a''], Submit [''b'']]
        (new_WorkerPool [] 1 :: regex WorkerPool)))) \<le> 1
   \<and> idleWorkers (run_pool [Submit [''a''], Message 0 []] (new_WorkerPool [] 1 :: regex WorkerPool)) \<noteq> []
   \<and> fst (getFreeWorker (run_pool [Submit [''a''], Message 0 []]
        (new_WorkerPool [] 1 :: regex WorkerPool))) = Some 0
   \<and> workers (snd (getFreeWorker (new_WorkerPool [] 1 :: regex WorkerPool)))
       \<noteq> workers (new_WorkerPool [] 1 :: regex WorkerPool)
   \<and> idleWorkers (new_WorkerPool [] 1 :: regex WorkerPool) = []"
proof -
  let ?n = "new_WorkerPool [] 1 :: regex WorkerPool"
  let ?p = "run_pool [Submit [''a''], Message 0 []] ?n"
  have h: "(0::int) \<le> 1" by simp
  have idle: "idleWorkers ?p = [0]"
    by (simp add: new_WorkerPool_def queryResultsForSourceTexts_def getFreeWorker_def
        dispatch_def on_message_def settle_def)
  have sp: "workers (snd (getFreeWorker ?n)) \<noteq> workers ?n"
    by (simp add: new_WorkerPool_def getFreeWorker_def)
  from idle have ne: "idleWorkers ?p \<noteq> []" by (simp only: list.distinct not_False_eq_True)
  note t = worker_count_bounded [of "[Submit [''a''], Submit [''b'']]" "[]" 1 ?p]
  from t h have 1: "int (length (workers (run_pool [Submit [''a''], Submit [''b'']] ?n))) \<le> 1"
    by blast
  from t ne have g: "getFreeWorker ?p = (Some (hd (idleWorkers ?p)), ?p\<lparr>idleWorkers := tl (idleWorkers ?p)\<rparr>)"
    by blast
  have 2: "fst (getFreeWorker ?p) = Some 0"
    by (simp only: g fst_conv idle list.sel)
  from worker_count_bounded [of "[]" "[]" 1 ?n] sp
  have 3: "idleWorkers ?n = []" by blast
  from h 1 2 3 ne sp show ?thesis by (simp only: simp_thms)
qed

text \<open>
  The claim as written fails when \<^verbatim>\<open>getNumThreads()\<close> gives a negative number, as it does
  with \<^verbatim>\<open>WE_API_FINDER_NUM_THREADS=-1\<close>: the pool never makes a worker, and its count of
  workers, zero, is above \<open>numThreads\<close>.
\<close>

theorem worker_count_counterexample:
  "numThreads (run_pool [Submit [''a'']] (new_WorkerPool [] (- 1) :: regex WorkerPool)) = - 1
   \<and> workers (run_pool [Submit [''a'']] (new_WorkerPool [] (- 1) :: regex WorkerPool)) = []
   \<and> \<not> int (length (workers (run_pool [Submit [''a'']] (new_WorkerPool [] (- 1) :: regex WorkerPool))))
        \<le> numThreads (run_pool [Submit [''a'']] (new_WorkerPool [] (- 1) :: regex WorkerPool))"
  by (simp add: new_WorkerPool_def queryResultsForSourceTexts_def getFreeWorker_def)

lemma getFreeWorker_retired:
  assumes "retired w p" and "getFreeWorker p = (x, p')"
  shows "retired w p' \<and> x \<noteq> Some w \<and> posted p' = posted p \<and> promises p' = promises p"
  using assms
  by (auto simp: retired_def getFreeWorker_def split: list.splits if_splits)

lemma dispatch_retired:
  assumes "retired w p" and "w' \<noteq> w"
  shows "retired w (dispatch w' p) \<and> posted_to w (dispatch w' p) = posted_to w p
         \<and> promises (dispatch w' p) = promises p"
  using assms
  by (auto simp: retired_def dispatch_def posted_to_def split: list.splits)

lemma runNextTask_retired:
  "retired w p \<Longrightarrow>
   retired w (runNextTask p) \<and> posted_to w (runNextTask p) = posted_to w p
   \<and> promises (runNextTask p) = promises p"
proof (induction p rule: runNextTask.induct)
  case (1 p)
  show ?case
  proof (cases "taskQueue p = []")
    case True
    with "1.prems" show ?thesis by (subst (1 2 3) runNextTask.simps) simp
  next
    case False
    obtain x p' where g: "getFreeWorker p = (x, p')" by (cases "getFreeWorker p")
    from getFreeWorker_retired [OF "1.prems" g]
    have r': "retired w p'" and x: "x \<noteq> Some w" and po: "posted p' = posted p"
      and pr: "promises p' = promises p" by simp_all
    show ?thesis
    proof (cases x)
      case None
      with False g r' po pr show ?thesis
        by (subst (1 2 3) runNextTask.simps) (simp add: posted_to_def)
    next
      case (Some w')
      with x have ne: "w' \<noteq> w" by simp
      from dispatch_retired [OF r' ne]
      have rd: "retired w (dispatch w' p')" and pd: "posted_to w (dispatch w' p') = posted_to w p'"
        and prd: "promises (dispatch w' p') = promises p'" by simp_all
      from "1.IH" [OF False g [symmetric] Some rd] pd prd po pr
      have "retired w (runNextTask (dispatch w' p'))
            \<and> posted_to w (runNextTask (dispatch w' p')) = posted_to w p
            \<and> promises (runNextTask (dispatch w' p')) = promises p"
        by (simp add: posted_to_def)
      with False g Some show ?thesis by (subst (1 2 3) runNextTask.simps) simp
    qed
  qed
qed

lemma settle_keeps: "ps f = Some v \<Longrightarrow> settle g u ps f = Some v"
  by (auto simp: settle_def split: option.splits)

lemma pool_step_retired:
  assumes "retired w p" and "\<forall>r. e \<noteq> Message w r" and "promises p f = Some v"
  shows "retired w (pool_step e p) \<and> posted_to w (pool_step e p) = posted_to w p
         \<and> promises (pool_step e p) f = Some v"
proof (cases e)
  case (Submit texts)
  let ?p = "p\<lparr>taskQueue := taskQueue p @ [(promisesMade p, texts)], promisesMade := Suc (promisesMade p)\<rparr>"
  from assms(1) have "retired w ?p" by (simp add: retired_def)
  from runNextTask_retired [OF this] Submit assms(3) show ?thesis
    by (simp add: queryResultsForSourceTexts_def posted_to_def)
next
  case (Message w' result)
  with assms(2) have ne: "w' \<noteq> w" by auto
  show ?thesis
  proof (cases "kTaskResolver p w'")
    case None
    with assms Message show ?thesis by (simp add: on_message_def)
  next
    case (Some g)
    let ?p = "p\<lparr>promises := settle g (Fulfilled result) (promises p),
                 idleWorkers := idleWorkers p @ [w']\<rparr>"
    from assms(1) ne have "retired w ?p" by (simp add: retired_def)
    from runNextTask_retired [OF this] Message Some assms(3) show ?thesis
      by (simp add: on_message_def posted_to_def settle_keeps)
  qed
next
  case (Error w' err)
  with assms show ?thesis
    by (simp add: retired_def on_error_def posted_to_def settle_keeps split: option.splits)
next
  case TerminateAll
  with assms show ?thesis by (simp add: retired_def terminateAllWorkers_def posted_to_def)
qed

lemma run_pool_retired:
  "retired w p \<Longrightarrow> \<forall>e\<in>set evs. \<forall>r. e \<noteq> Message w r \<Longrightarrow> promises p f = Some v \<Longrightarrow>
   retired w (run_pool evs p) \<and> posted_to w (run_pool evs p) = posted_to w p
   \<and> promises (run_pool evs p) f = Some v"
proof (induction evs arbitrary: p)
  case Nil
  then show ?case by simp
next
  case (Cons e evs)
  from Cons.prems(2) have e: "\<forall>r. e \<noteq> Message w r" and rest: "\<forall>e\<in>set evs. \<forall>r. e \<noteq> Message w r"
    by simp_all
  from pool_step_retired [OF Cons.prems(1) e Cons.prems(3)]
  have 1: "retired w (pool_step e p)" and 2: "posted_to w (pool_step e p) = posted_to w p"
    and 3: "promises (pool_step e p) f = Some v" by simp_all
  from Cons.IH [OF 1 rest 3] 2 show ?case by simp
qed

text \<open>
  Claim C7. When a worker that has a dispatched task (its resolver belongs to a pending
  promise, and it is not in the idle queue) emits an error, the promise is rejected with
  that error and stays so, and the worker is not put into the idle queue: whatever
  happens afterwards, short of a message from the terminated worker itself, it is not in
  the idle queue and no further task is posted to it.
\<close>

theorem worker_error_retires:
  assumes "kTaskResolver p w = Some f" and "promises p f = None"
    and "w \<notin> set (idleWorkers p)" and "w < workersMade p"
    and "\<forall>e\<in>set evs. \<forall>r. e \<noteq> Message w r"
  shows "promises (on_error w err p) f = Some (Rejected err)
     \<and> idleWorkers (on_error w err p) = idleWorkers p
     \<and> w \<notin> set (idleWorkers (run_pool evs (on_error w err p)))
     \<and> posted_to w (run_pool evs (on_error w err p)) = posted_to w p
     \<and> promises (run_pool evs (on_error w err p)) f = Some (Rejected err)"
proof -
  let ?p = "on_error w err p"
  have a: "promises ?p f = Some (Rejected err)"
    using assms(1,2) by (simp add: on_error_def settle_def)
  have b: "idleWorkers ?p = idleWorkers p"
    using assms(1) by (simp add: on_error_def)
  have r: "retired w ?p"
    using assms(1,3,4) by (simp add: retired_def on_error_def)
  have po: "posted_to w ?p = posted_to w p"
    using assms(1) by (simp add: on_error_def posted_to_def)
  from run_pool_retired [OF r assms(5) a] po a b show ?thesis
    by (simp add: retired_def)
qed

theorem worker_error_retires_witness:
  "kTaskResolver (run_pool [Submit [''a''], Submit [''b'']] (new_WorkerPool [] 1 :: regex WorkerPool)) 0 = Some 0
   \<and> promises (run_pool [Submit [''a''], Submit [''b'']] (new_WorkerPool [] 1 :: regex WorkerPool)) 0 = None
   \<and> 0 \<notin> set (idleWorkers (run_pool [Submit [''a''], Submit [''b'']] (new_WorkerPool [] 1 :: regex WorkerPool)))
   \<and> 0 < workersMade (run_pool [Submit [''a''], Submit [''b'']] (new_WorkerPool [] 1 :: regex WorkerPool))
   \<and> promises (run_pool [Submit [''c'']]
        (on_error 0 ''crash'' (run_pool [Submit [''a''], Submit [''b'']] (new_WorkerPool [] 1 :: regex WorkerPool)))) 0
      = Some (Rejected ''crash'')
   \<and> posted_to 0 (run_pool [Submit [''c'']]
        (on_error 0 ''crash'' (run_pool [Submit [''a''], Submit [''b'']] (new_WorkerPool [] 1 :: regex WorkerPool))))
      = [(0, [''a''])]"
proof -
  let ?p = "run_pool [Submit [''a''], Submit [''b'']] (new_WorkerPool [] 1 :: regex WorkerPool)"
  have st: "kTaskResolver ?p 0 = Some 0 \<and> promises ?p 0 = None \<and> idleWorkers ?p = []
            \<and> workersMade ?p = 1 \<and> posted ?p = [(0, [''a''])]"
    by (simp add: new_WorkerPool_def queryResultsForSourceTexts_def getFreeWorker_def dispatch_def)
  then have a: "kTaskResolver ?p 0 = Some 0" and b: "promises ?p 0 = None"
    and c: "0 \<notin> set (idleWorkers ?p)" and d: "0 < workersMade ?p"
    and po: "posted_to 0 ?p = [(0, [''a''])]"
    by (simp_all add: posted_to_def)
  have e: "\<forall>e\<in>set [Submit [''c'']]. \<forall>r. e \<noteq> Message 0 r" by simp
  from worker_error_retires [OF a b c d e, of "''crash''"] a b c d po
  show ?thesis by simp
qed
section \<open>The asynchronous QueryCompiler\<close>








lemma run_compiler_snoc:
  "run_compiler mk nt (h @ [x]) c = compiler_step mk nt x (run_compiler mk nt h c)"
  by (induction h arbitrary: c) simp_all



lemma async_addQuery_pool: "workerPool (snd (async_addQuery mk q c)) = workerPool c"
  by (simp add: async_addQuery_def split: prod.splits)


lemma async_addQuery_with_pool:
  "workerPool c \<noteq> None \<Longrightarrow> async_addQuery mk q c = (Some AddQueryAfterNewQueryMatcher, c)"
  by (simp add: async_addQuery_def)


text \<open>
  The pool is made with the content of the compiler's map. The map does not change as
  long as the compiler holds the pool, so the pool's copy is what the map holds.
\<close>

lemma pool_has_the_map:
  "workerPool (run_compiler mk nt h new_AsyncQueryCompiler) = Some p \<Longrightarrow>
   wp_queriesAndPatterns p
     = qc_queriesAndPatterns (qcInternal (run_compiler mk nt h new_AsyncQueryCompiler))"
proof (induction h arbitrary: p rule: rev_induct)
  case Nil
  then show ?case by (simp add: new_AsyncQueryCompiler_def)
next
  case (snoc x h)
  let ?c = "run_compiler mk nt h new_AsyncQueryCompiler"
  show ?case
  proof (cases x)
    case (AddQueryCall q)
    with snoc.prems have "workerPool ?c = Some p"
      by (simp add: run_compiler_snoc async_addQuery_pool)
    with snoc.IH [OF this] AddQueryCall show ?thesis
      by (simp add: run_compiler_snoc async_addQuery_with_pool)
  next
    case NewQueryMatcher
    show ?thesis
    proof (cases "workerPool ?c")
      case None
      with snoc.prems NewQueryMatcher show ?thesis
        by (auto simp: run_compiler_snoc async_newQueryMatcher_def new_WorkerPool_def)
    next
      case (Some p')
      with snoc.prems NewQueryMatcher have "p' = p"
        by (simp add: run_compiler_snoc async_newQueryMatcher_def)
      with snoc.IH [of p] Some NewQueryMatcher show ?thesis
        by (simp add: run_compiler_snoc async_newQueryMatcher_def)
    qed
  next
    case Destroy
    with snoc.prems show ?thesis
      by (simp add: run_compiler_snoc destroy_def split: option.splits)
  qed
qed









end
